theory Spec2Isabelle
  imports Complex_Main "HOL-Library.Code_Target_Nat"
begin

unbundle bit_operations_syntax

section \<open>The Cream supernet training mutator\<close>

text \<open>
  The class \<^verbatim>\<open>CreamSupernetTrainingMutator\<close> of
  \<^verbatim>\<open>nni/nas/pytorch/cream/mutator.py\<close> holds four configuration fields and
  draws candidates from numpy's process-wide random generator. A call can touch the
  object and the generator, and what numpy can allocate depends on the memory of the
  process, so every method takes and returns the three of them. A Python exception is a
  value of \<open>py_error\<close>: the class itself raises \<^verbatim>\<open>ValueError\<close> only, numpy's
  \<^verbatim>\<open>choice\<close> raises the three kinds below. A call that never comes back, because
  numpy keeps redrawing, has no result: every operation that draws returns an option,
  and \<open>None\<close> is the call that does not return.
\<close>

datatype py_error = ValueError string | OverflowError string | MemoryError string

text \<open>
  The fields assigned by \<^verbatim>\<open>__init__\<close>. \<open>pre_prob\<close> is a Python tuple of numbers or
  \<^verbatim>\<open>None\<close>; the numbers are kept exact. \<open>CHOICE_NUM\<close> and the entries of \<open>sta_num\<close>
  are Python integers.
\<close>

record mutator =
  how_to_prob :: string
  pre_prob :: "rat list option"
  CHOICE_NUM :: int
  sta_num :: "int list"

text \<open>
  The generator is represented by the sequence of raw 32-bit words it is still going to
  deliver (a word is taken modulo \<open>2 ^ 32\<close> where it is used); nothing is assumed about
  that sequence, so a statement about every \<open>rng\<close> is a statement about every seed.
  \<open>np_memory\<close> is the largest number of elements of an array that the process is
  granted; a larger request ends in \<^verbatim>\<open>MemoryError\<close>.
\<close>

type_synonym rng = "nat \<Rightarrow> nat"

record state =
  self :: mutator
  np_random :: rng
  np_memory :: nat

definition advance :: "nat \<Rightarrow> rng \<Rightarrow> rng" where
  "advance k g = (\<lambda>i. g (i + k))"

subsection \<open>The numpy primitive\<close>

text \<open>
  \<^verbatim>\<open>np.random.choice(a, size=None, replace=True, p=None)\<close> belongs to numpy, not to this
  repository. The mutator calls it with an integer \<open>a\<close>, an integer \<open>size\<close> and at most one
  further positional argument, which numpy binds to \<open>replace\<close>; the keyword \<open>p\<close> is never
  supplied, so the primitive always runs with \<^verbatim>\<open>p=None\<close> and only that part of it is
  modelled, after numpy's legacy generator (\<^verbatim>\<open>RandomState\<close> over MT19937, 64-bit
  platform).

  A bounded draw on the closed interval from 0 to \<open>max\<close> takes the smallest bit mask
  that covers \<open>max\<close>, masks the next raw word with it and draws again as long as the
  masked word is above \<open>max\<close>. Up to \<open>max = 0xFFFFFFFF\<close> the raw word is one 32-bit word,
  above it two words make one 64-bit word. Nothing bounds the number of redraws.
\<close>

definition next_uint32 :: "rng \<Rightarrow> nat \<times> rng" where
  "next_uint32 g = (g 0 mod 2 ^ 32, advance 1 g)"

definition next_uint64 :: "rng \<Rightarrow> nat \<times> rng" where
  "next_uint64 g = ((g 0 mod 2 ^ 32) * 2 ^ 32 + g 1 mod 2 ^ 32, advance 2 g)"

fun bit_length :: "nat \<Rightarrow> nat" where
  "bit_length n = (if n = 0 then 0 else Suc (bit_length (n div 2)))"

declare bit_length.simps [simp del]

definition gen_mask :: "nat \<Rightarrow> nat" where
  "gen_mask max' = 2 ^ bit_length max' - 1"

partial_function (option) bounded_masked ::
  "(rng \<Rightarrow> nat \<times> rng) \<Rightarrow> nat \<Rightarrow> nat \<Rightarrow> rng \<Rightarrow> (nat \<times> rng) option" where
  "bounded_masked next_word max' mask' g =
     (case next_word g of
        (w, g') \<Rightarrow>
          if w AND mask' > max' then bounded_masked next_word max' mask' g'
          else Some (w AND mask', g'))"

declare bounded_masked.simps [code]

text \<open>
  \<^verbatim>\<open>random_bounded_uint64_fill\<close> with offset 0, as \<^verbatim>\<open>randint\<close> uses it for the default
  integer type: no draw at all for \<open>max = 0\<close>, the raw word itself for
  \<open>max = 0xFFFFFFFF\<close>, the masked draw otherwise. \<open>max\<close> is below \<open>2 ^ 63\<close> here.
\<close>

definition random_bounded :: "nat \<Rightarrow> rng \<Rightarrow> (nat \<times> rng) option" where
  "random_bounded max' g =
     (if max' = 0 then Some (0, g)
      else if max' \<le> 0xFFFFFFFF then
        (if max' = 0xFFFFFFFF then Some (next_uint32 g)
         else bounded_masked next_uint32 max' (gen_mask max') g)
      else bounded_masked next_uint64 max' (gen_mask max') g)"

fun bounded_fill :: "nat \<Rightarrow> nat \<Rightarrow> rng \<Rightarrow> (nat list \<times> rng) option" where
  "bounded_fill max' 0 g = Some ([], g)"
| "bounded_fill max' (Suc cnt) g =
     (case random_bounded max' g of
        None \<Rightarrow> None
      | Some (v, g') \<Rightarrow>
          (case bounded_fill max' cnt g' of
             None \<Rightarrow> None
           | Some (vs, g'') \<Rightarrow> Some (v # vs, g'')))"

text \<open>
  \<^verbatim>\<open>randint(0, high, size)\<close>: an empty request is answered at once; a bound outside
  \<^verbatim>\<open>int64\<close> is refused; then the result array is allocated, which fails for a negative
  size, for a size beyond numpy's largest array and for a size beyond what the process is
  granted; then the array is filled.
\<close>

definition randint ::
  "int \<Rightarrow> int \<Rightarrow> nat \<Rightarrow> rng \<Rightarrow> ((py_error + int list) \<times> rng) option" where
  "randint high size' mem g =
     (if size' = 0 then Some (Inr [], g)
      else if high - 1 > 2 ^ 63 - 1 then
        Some (Inl (ValueError ''high is out of bounds for int64''), g)
      else if 0 > high - 1 then Some (Inl (ValueError ''low >= high''), g)
      else if size' < 0 then Some (Inl (ValueError ''negative dimensions are not allowed''), g)
      else if size' \<ge> 2 ^ 60 then Some (Inl (ValueError ''array is too big''), g)
      else if size' > int mem then Some (Inl (MemoryError ''Unable to allocate''), g)
      else
        (case bounded_fill (nat (high - 1)) (nat size') g of
           None \<Rightarrow> None
         | Some (vs, g') \<Rightarrow> Some (Inr (map int vs), g')))"

text \<open>
  \<^verbatim>\<open>random_interval\<close> and the shuffle of \<^verbatim>\<open>permutation\<close>: position \<open>i\<close>, from the last one
  down to 1, is swapped with a position drawn from 0 to \<open>i\<close>.
\<close>

definition random_interval :: "nat \<Rightarrow> rng \<Rightarrow> (nat \<times> rng) option" where
  "random_interval max' g =
     (if max' = 0 then Some (0, g)
      else if max' \<le> 0xFFFFFFFF then bounded_masked next_uint32 max' (gen_mask max') g
      else bounded_masked next_uint64 max' (gen_mask max') g)"

fun shuffle :: "nat \<Rightarrow> int list \<Rightarrow> rng \<Rightarrow> (int list \<times> rng) option" where
  "shuffle 0 xs g = Some (xs, g)"
| "shuffle (Suc i) xs g =
     (case random_interval (Suc i) g of
        None \<Rightarrow> None
      | Some (j, g') \<Rightarrow> shuffle i (xs[Suc i := xs ! j, j := xs ! Suc i]) g')"

definition permutation ::
  "nat \<Rightarrow> nat \<Rightarrow> rng \<Rightarrow> ((py_error + int list) \<times> rng) option" where
  "permutation n mem g =
     (if n \<ge> 2 ^ 60 then Some (Inl (ValueError ''Maximum allowed size exceeded''), g)
      else if n > mem then Some (Inl (MemoryError ''Unable to allocate''), g)
      else
        (case shuffle (n - 1) (map int [0..<n]) g of
           None \<Rightarrow> None
         | Some (arr, g') \<Rightarrow> Some (Inr arr, g')))"

text \<open>
  \<^verbatim>\<open>choice\<close> itself: a population that is not positive is refused unless no sample is
  asked for; the size must fit a C integer; with replacement the samples are
  \<^verbatim>\<open>randint(0, a, size)\<close>; without replacement more samples than \<open>a\<close> and a negative
  size are refused, and otherwise the first \<open>size\<close> entries of \<^verbatim>\<open>permutation(a)\<close> are
  returned.
\<close>

definition choice ::
  "int \<Rightarrow> int \<Rightarrow> bool \<Rightarrow> nat \<Rightarrow> rng \<Rightarrow> ((py_error + int list) \<times> rng) option" where
  "choice a size' replace mem g =
     (if a \<le> 0 \<and> size' \<noteq> 0 then
        Some (Inl (ValueError ''a must be greater than 0 unless no samples are taken''), g)
      else if size' < - (2 ^ 63) \<or> size' \<ge> 2 ^ 63 then
        Some (Inl (OverflowError ''Python int too large to convert to C long''), g)
      else if replace then randint a size' mem g
      else
        (if size' > a then
           Some (Inl (ValueError
             (''Cannot take a larger sample than population when '' @ [CHR 0x27] @
              ''replace=False'' @ [CHR 0x27])), g)
         else if size' < 0 then
           Some (Inl (ValueError ''negative dimensions are not allowed''), g)
         else
           (case permutation (nat a) mem g of
              None \<Rightarrow> None
            | Some (Inl e, g') \<Rightarrow> Some (Inl e, g')
            | Some (Inr perm, g') \<Rightarrow> Some (Inr (take (nat size') perm), g'))))"

subsection \<open>The methods of the class\<close>

text \<open>\<^verbatim>\<open>__init__\<close> stores its four arguments and checks none of them.\<close>

definition init :: "string \<Rightarrow> rat list option \<Rightarrow> int \<Rightarrow> int list \<Rightarrow> mutator" where
  "init how pre n sta =
     \<lparr>how_to_prob = how, pre_prob = pre, CHOICE_NUM = n, sta_num = sta\<rparr>"

definition get_prob :: "mutator \<Rightarrow> py_error + rat list option" where
  "get_prob m =
     (if how_to_prob m = ''even'' then Inr None
      else if how_to_prob m = ''pre_prob'' then Inr (pre_prob m)
      else Inl (ValueError ''prob method not supported''))"

text \<open>
  A list comprehension \<^verbatim>\<open>[f(item) for item in items]\<close> whose body draws from the
  generator: the items are visited in order, and the first exception ends the
  comprehension with the generator as far as it was consumed.
\<close>

fun comprehension ::
  "(int \<Rightarrow> rng \<Rightarrow> ((py_error + int list) \<times> rng) option) \<Rightarrow> int list \<Rightarrow> rng
    \<Rightarrow> ((py_error + int list list) \<times> rng) option" where
  "comprehension f [] g = Some (Inr [], g)"
| "comprehension f (item # items) g =
     (case f item g of
        None \<Rightarrow> None
      | Some (Inl e, g') \<Rightarrow> Some (Inl e, g')
      | Some (Inr xs, g') \<Rightarrow>
          (case comprehension f items g' of
             None \<Rightarrow> None
           | Some (Inl e, g'') \<Rightarrow> Some (Inl e, g'')
           | Some (Inr xss, g'') \<Rightarrow> Some (Inr (xs # xss), g'')))"

text \<open>
  \<^verbatim>\<open>sample_search\<close>. In the second branch \<open>prob\<close> is the third positional argument of
  \<^verbatim>\<open>np.random.choice\<close>, which is \<open>replace\<close>; numpy tests it with \<^verbatim>\<open>if replace:\<close>, and a
  tuple is true exactly when it is not empty.
\<close>

definition sample_search :: "state \<Rightarrow> ((py_error + int list list) \<times> state) option" where
  "sample_search st =
     (case get_prob (self st) of
        Inl e \<Rightarrow> Some (Inl e, st)
      | Inr prob \<Rightarrow>
          (case (case prob of
                   None \<Rightarrow>
                     comprehension
                       (\<lambda>item. choice (CHOICE_NUM (self st)) item True (np_memory st))
                       (sta_num (self st)) (np_random st)
                 | Some pr \<Rightarrow>
                     comprehension
                       (\<lambda>item. choice (CHOICE_NUM (self st)) item (pr \<noteq> []) (np_memory st))
                       (sta_num (self st)) (np_random st)) of
             None \<Rightarrow> None
           | Some (Inl e, g') \<Rightarrow> Some (Inl e, st\<lparr>np_random := g'\<rparr>)
           | Some (Inr get_random_cand, g') \<Rightarrow>
               Some (Inr ([0] # get_random_cand @ [[0]]), st\<lparr>np_random := g'\<rparr>)))"

definition sample_final :: "state \<Rightarrow> ((py_error + int list list) \<times> state) option" where
  "sample_final st = sample_search st"

text \<open>
  Notions that the statements below need. \<open>accepted max g n\<close>: the \<open>n\<close>-th raw word
  that a bounded draw up to \<open>max\<close> takes from \<open>g\<close> is one it keeps. \<open>productive max g\<close>:
  however far the generator has got, a word that the draw keeps is still to come, so
  that no draw redraws for ever. \<open>exchange k k'\<close> swaps the two values \<open>k\<close> and \<open>k'\<close>, and
  \<open>exchange_word max k k'\<close> swaps them in the part of a raw word that the mask for \<open>max\<close>
  lets through, leaving the rest of the word alone. \<open>relabel max k k' g\<close> is the
  generator \<open>g\<close> with every raw word so exchanged: word by word on the 32-bit path, and
  on the 64-bit path in the 64-bit word \<open>raw64 g n\<close> that the words \<open>2 n\<close> and \<open>2 n + 1\<close>
  make.
\<close>

definition accepted :: "nat \<Rightarrow> rng \<Rightarrow> nat \<Rightarrow> bool" where
  "accepted max' g n =
     (if max' \<le> 0xFFFFFFFF
      then fst (next_uint32 (advance n g)) AND gen_mask max' \<le> max'
      else fst (next_uint64 (advance (2 * n) g)) AND gen_mask max' \<le> max')"

definition productive :: "nat \<Rightarrow> rng \<Rightarrow> bool" where
  "productive max' g = (\<forall>i. \<exists>j\<ge>i. accepted max' g j)"

definition exchange :: "'a \<Rightarrow> 'a \<Rightarrow> 'a \<Rightarrow> 'a" where
  "exchange k k' v = (if v = k then k' else if v = k' then k else v)"

definition exchange_word :: "nat \<Rightarrow> nat \<Rightarrow> nat \<Rightarrow> nat \<Rightarrow> nat" where
  "exchange_word max' k k' w =
     w div 2 ^ bit_length max' * 2 ^ bit_length max'
       + exchange k k' (w mod 2 ^ bit_length max')"

definition raw64 :: "rng \<Rightarrow> nat \<Rightarrow> nat" where
  "raw64 g n = (g (2 * n) mod 2 ^ 32) * 2 ^ 32 + g (2 * n + 1) mod 2 ^ 32"

definition relabel :: "nat \<Rightarrow> nat \<Rightarrow> nat \<Rightarrow> rng \<Rightarrow> rng" where
  "relabel max' k k' g =
     (if max' \<le> 0xFFFFFFFF then (\<lambda>i. exchange_word max' k k' (g i))
      else
        (\<lambda>i. g i div 2 ^ 32 * 2 ^ 32 +
           (if even i then exchange_word max' k k' (raw64 g (i div 2)) div 2 ^ 32
            else exchange_word max' k k' (raw64 g (i div 2)) mod 2 ^ 32)))"

section \<open>The data stage of the evaluation driver\<close>

text \<open>
  \<^verbatim>\<open>main\<close> of \<^verbatim>\<open>examples/nas/cream/test.py\<close> reaches its data stage after the model
  has been built and wrapped. The stage reads two of the parsed arguments, \<open>tiny\<close> and
  \<open>data\<close> (\<^verbatim>\<open>None\<close> when \<^verbatim>\<open>--data\<close> is not given), and asks the file system what two
  paths name. What it does to the outside world is recorded as a list of events, in
  order: an error written to the log, and the calls into the data-loading library
  (\<^verbatim>\<open>get_newimagenet\<close>, \<^verbatim>\<open>Dataset\<close>, \<^verbatim>\<open>create_loader\<close>), which are not part of the
  driver. The stage ends by leaving the process with an exit code (\<^verbatim>\<open>exit(1)\<close>), by an
  uncaught exception (\<^verbatim>\<open>os.path.join\<close> of \<^verbatim>\<open>None\<close>), or by going on to the evaluation
  loop.
\<close>

datatype entry = Absent | File | Dir

type_synonym filesystem = "string \<Rightarrow> entry"

datatype event =
  LogError string
| GetNewImagenet "string option"
| Dataset string
| CreateLoader

datatype outcome = Exit int | Raised string | Proceed

record args =
  tiny :: bool
  data :: "string option"

definition os_path_exists :: "filesystem \<Rightarrow> string \<Rightarrow> bool" where
  "os_path_exists fs path = (fs path \<noteq> Absent)"

definition os_path_isdir :: "filesystem \<Rightarrow> string \<Rightarrow> bool" where
  "os_path_isdir fs path = (fs path = Dir)"

text \<open>\<^verbatim>\<open>os.path.join\<close> of two components on a POSIX system.\<close>

definition os_path_join :: "string \<Rightarrow> string \<Rightarrow> string" where
  "os_path_join a b =
     (if b \<noteq> [] \<and> hd b = CHR ''/'' then b
      else if a = [] \<or> last a = CHR ''/'' then a @ b
      else a @ ''/'' @ b)"

definition load_data :: "args \<Rightarrow> filesystem \<Rightarrow> event list \<times> outcome" where
  "load_data a fs =
     (if tiny a then ([GetNewImagenet (data a)], Proceed)
      else
        (case data a of
           None \<Rightarrow> ([], Raised ''TypeError'')
         | Some d \<Rightarrow>
             (let train_dir = os_path_join d ''train'' in
              if \<not> os_path_exists fs train_dir then
                ([LogError (''Training folder does not exist at: '' @ train_dir)], Exit 1)
              else
                (let eval_dir = os_path_join d ''val'' in
                 if \<not> os_path_isdir fs eval_dir then
                   ([LogError (''Validation folder does not exist at: '' @ eval_dir)], Exit 1)
                 else ([Dataset eval_dir, CreateLoader], Proceed)))))"

section \<open>Properties of the sampler\<close>

subsection \<open>The generator\<close>

lemma advance_add: "advance b (advance a g) = advance (a + b) g"
  by (simp add: advance_def fun_eq_iff ac_simps)

lemma advance_0: "advance 0 g = g"
  by (simp add: advance_def)

lemma snd_next_uint32: "snd (next_uint32 g) = advance 1 g"
  by (simp add: next_uint32_def)

lemma snd_next_uint64: "snd (next_uint64 g) = advance 2 g"
  by (simp add: next_uint64_def)

lemma fst_next_uint32_less: "fst (next_uint32 g) \<le> 0xFFFFFFFF"
proof -
  have "g 0 mod 2 ^ 32 < (2::nat) ^ 32" by simp
  then show ?thesis by (simp add: next_uint32_def)
qed

subsection \<open>The masked draw\<close>

lemma bounded_masked_keep:
  "fst (next_word g) AND mask' \<le> max' \<Longrightarrow>
   bounded_masked next_word max' mask' g = Some (fst (next_word g) AND mask', snd (next_word g))"
  by (subst bounded_masked.simps) (simp add: case_prod_beta)

lemma bounded_masked_redraw:
  "max' < fst (next_word g) AND mask' \<Longrightarrow>
   bounded_masked next_word max' mask' g = bounded_masked next_word max' mask' (snd (next_word g))"
  by (subst bounded_masked.simps) (simp add: case_prod_beta)

lemma bounded_masked_le_aux:
  "bounded_masked next_word max' mask' g = Some y \<Longrightarrow> fst y \<le> max'"
proof (rule bounded_masked.raw_induct [where P = "\<lambda>nw mx mk g y. fst y \<le> mx"])
  fix f :: "(rng \<Rightarrow> nat \<times> rng) \<Rightarrow> nat \<Rightarrow> nat \<Rightarrow> rng \<Rightarrow> (nat \<times> rng) option"
    and nw mx mk g y
  assume IH: "\<And>mx mk g b y. f mx mk g b = Some y \<Longrightarrow> fst y \<le> mk"
    and step: "(case nw g of (w, g') \<Rightarrow> if mx < w AND mk then f nw mx mk g' else Some (w AND mk, g')) = Some y"
  show "fst y \<le> mx"
  proof (cases "mx < fst (nw g) AND mk")
    case True
    with step have "f nw mx mk (snd (nw g)) = Some y" by (simp add: case_prod_beta)
    then show ?thesis by (rule IH)
  next
    case False
    with step show ?thesis by (auto simp: case_prod_beta)
  qed
qed

lemma bounded_masked_le:
  "bounded_masked next_word max' mask' g = Some (v, g') \<Longrightarrow> v \<le> max'"
  using bounded_masked_le_aux [of next_word max' mask' g "(v, g')"] by simp

lemma fst_next_uint32: "fst (next_uint32 g) = g 0 mod 2 ^ 32"
  by (simp add: next_uint32_def)

lemma bounded_masked_32_Some:
  "g n mod 2 ^ 32 AND mask' \<le> max' \<Longrightarrow>
   \<exists>v m. m \<le> n \<and> v \<le> max' \<and>
     bounded_masked next_uint32 max' mask' g = Some (v, advance (Suc m) g)"
proof (induction n arbitrary: g)
  case 0
  then have "fst (next_uint32 g) AND mask' \<le> max'" by (simp add: fst_next_uint32)
  from bounded_masked_keep [of next_uint32 g mask' max'] this
  have "0 \<le> (0::nat) \<and> fst (next_uint32 g) AND mask' \<le> max' \<and>
      bounded_masked next_uint32 max' mask' g
        = Some (fst (next_uint32 g) AND mask', advance (Suc 0) g)"
    by (simp add: snd_next_uint32)
  then show ?case by blast
next
  case (Suc n)
  show ?case
  proof (cases "fst (next_uint32 g) AND mask' \<le> max'")
    case True
    from bounded_masked_keep [of next_uint32 g mask' max'] True
    have "0 \<le> Suc n \<and> fst (next_uint32 g) AND mask' \<le> max' \<and>
        bounded_masked next_uint32 max' mask' g
          = Some (fst (next_uint32 g) AND mask', advance (Suc 0) g)"
      by (simp add: snd_next_uint32)
    then show ?thesis by blast
  next
    case False
    then have "max' < fst (next_uint32 g) AND mask'" by simp
    from bounded_masked_redraw [of max' next_uint32 g mask'] this
    have eq: "bounded_masked next_uint32 max' mask' g
              = bounded_masked next_uint32 max' mask' (advance 1 g)"
      by (simp add: snd_next_uint32)
    from Suc.prems have "advance 1 g n mod 2 ^ 32 AND mask' \<le> max'"
      by (simp add: advance_def)
    from Suc.IH [of "advance 1 g"] this obtain v m where
      "m \<le> n" "v \<le> max'"
      "bounded_masked next_uint32 max' mask' (advance 1 g) = Some (v, advance (Suc m) (advance 1 g))"
      by blast
    with eq have "Suc m \<le> Suc n \<and> v \<le> max' \<and>
        bounded_masked next_uint32 max' mask' g = Some (v, advance (Suc (Suc m)) g)"
      by (simp add: advance_add)
    then show ?thesis by blast
  qed
qed

lemma bounded_masked_64_Some:
  "fst (next_uint64 (advance (2 * n) g)) AND mask' \<le> max' \<Longrightarrow>
   \<exists>v m. m \<le> n \<and> v \<le> max' \<and>
     bounded_masked next_uint64 max' mask' g = Some (v, advance (2 * Suc m) g)"
proof (induction n arbitrary: g)
  case 0
  then have "fst (next_uint64 g) AND mask' \<le> max'" by (simp add: advance_0)
  from bounded_masked_keep [of next_uint64 g mask' max'] this
  have "0 \<le> (0::nat) \<and> fst (next_uint64 g) AND mask' \<le> max' \<and>
      bounded_masked next_uint64 max' mask' g
        = Some (fst (next_uint64 g) AND mask', advance (2 * Suc 0) g)"
    by (simp add: snd_next_uint64)
  then show ?case by blast
next
  case (Suc n)
  show ?case
  proof (cases "fst (next_uint64 g) AND mask' \<le> max'")
    case True
    from bounded_masked_keep [of next_uint64 g mask' max'] True
    have "0 \<le> Suc n \<and> fst (next_uint64 g) AND mask' \<le> max' \<and>
        bounded_masked next_uint64 max' mask' g
          = Some (fst (next_uint64 g) AND mask', advance (2 * Suc 0) g)"
      by (simp add: snd_next_uint64)
    then show ?thesis by blast
  next
    case False
    then have "max' < fst (next_uint64 g) AND mask'" by simp
    from bounded_masked_redraw [of max' next_uint64 g mask'] this
    have eq: "bounded_masked next_uint64 max' mask' g
              = bounded_masked next_uint64 max' mask' (advance 2 g)"
      by (simp add: snd_next_uint64)
    have "advance (2 * n) (advance 2 g) = advance (2 * Suc n) g"
      by (simp add: advance_add)
    with Suc.prems have "fst (next_uint64 (advance (2 * n) (advance 2 g))) AND mask' \<le> max'"
      by simp
    from Suc.IH [of "advance 2 g"] this obtain v m where
      "m \<le> n" "v \<le> max'"
      "bounded_masked next_uint64 max' mask' (advance 2 g)
         = Some (v, advance (2 * Suc m) (advance 2 g))"
      by blast
    with eq have "Suc m \<le> Suc n \<and> v \<le> max' \<and>
        bounded_masked next_uint64 max' mask' g = Some (v, advance (2 * Suc (Suc m)) g)"
      by (simp add: advance_add)
    then show ?thesis by blast
  qed
qed

lemma accepted_advance_32:
  "max' \<le> 0xFFFFFFFF \<Longrightarrow> accepted max' (advance c g) j = accepted max' g (j + c)"
  by (simp add: accepted_def advance_add add.commute)

lemma accepted_advance_64:
  "\<not> max' \<le> 0xFFFFFFFF \<Longrightarrow> accepted max' (advance (2 * c) g) j = accepted max' g (j + c)"
  by (simp add: accepted_def advance_add algebra_simps)

lemma productive_advance_32:
  assumes "productive max' g" and "max' \<le> 0xFFFFFFFF"
  shows "productive max' (advance c g)"
  unfolding productive_def
proof
  fix i
  from assms(1) obtain j where "j \<ge> i + c" "accepted max' g j"
    unfolding productive_def by blast
  then have "j - c \<ge> i \<and> accepted max' (advance c g) (j - c)"
    by (simp add: accepted_advance_32 [OF assms(2)])
  then show "\<exists>j\<ge>i. accepted max' (advance c g) j" by blast
qed

lemma productive_advance_64:
  assumes "productive max' g" and "\<not> max' \<le> 0xFFFFFFFF"
  shows "productive max' (advance (2 * c) g)"
  unfolding productive_def
proof
  fix i
  from assms(1) obtain j where "j \<ge> i + c" "accepted max' g j"
    unfolding productive_def by blast
  then have "j - c \<ge> i \<and> accepted max' (advance (2 * c) g) (j - c)"
    by (simp add: accepted_advance_64 [OF assms(2)])
  then show "\<exists>j\<ge>i. accepted max' (advance (2 * c) g) j" by blast
qed

lemma random_bounded_productive:
  assumes "productive max' g"
  shows "\<exists>v g'. random_bounded max' g = Some (v, g') \<and> v \<le> max' \<and> productive max' g'"
proof -
  from assms obtain n where n: "accepted max' g n"
    unfolding productive_def by blast
  consider "max' = 0" | "max' = 0xFFFFFFFF" | "max' \<noteq> 0" "max' < 0xFFFFFFFF" | "\<not> max' \<le> 0xFFFFFFFF"
    by linarith
  then show ?thesis
  proof cases
    case 1
    with assms show ?thesis by (simp add: random_bounded_def)
  next
    case 2
    then have "random_bounded max' g = Some (fst (next_uint32 g), advance 1 g)"
      by (simp add: random_bounded_def next_uint32_def)
    moreover have "fst (next_uint32 g) \<le> max'"
      using fst_next_uint32_less [of g] 2 by simp
    moreover have "productive max' (advance 1 g)"
      using assms 2 by (intro productive_advance_32) simp_all
    ultimately show ?thesis by blast
  next
    case 3
    from n 3 have "g n mod 2 ^ 32 AND gen_mask max' \<le> max'"
      by (simp add: accepted_def fst_next_uint32 advance_def)
    from bounded_masked_32_Some [of g n "gen_mask max'" max'] this obtain v m where
      "v \<le> max'"
      "bounded_masked next_uint32 max' (gen_mask max') g = Some (v, advance (Suc m) g)"
      by blast
    moreover have "productive max' (advance (Suc m) g)"
      using assms 3 by (intro productive_advance_32) simp_all
    ultimately show ?thesis using 3 by (auto simp: random_bounded_def)
  next
    case 4
    from n 4 have "fst (next_uint64 (advance (2 * n) g)) AND gen_mask max' \<le> max'"
      by (simp add: accepted_def)
    from bounded_masked_64_Some [of n g "gen_mask max'" max'] this obtain v m where
      "v \<le> max'"
      "bounded_masked next_uint64 max' (gen_mask max') g = Some (v, advance (2 * Suc m) g)"
      by blast
    moreover have "productive max' (advance (2 * Suc m) g)"
      using assms 4 by (intro productive_advance_64)
    ultimately show ?thesis using 4 by (auto simp: random_bounded_def)
  qed
qed

lemma random_bounded_le:
  assumes "random_bounded max' g = Some (v, g')"
  shows "v \<le> max'"
proof (cases "max' = 0xFFFFFFFF")
  case True
  with assms have "v = fst (next_uint32 g)" by (auto simp: random_bounded_def)
  with fst_next_uint32_less [of g] True show ?thesis by simp
next
  case False
  with assms show ?thesis
    by (auto simp: random_bounded_def split: if_splits dest: bounded_masked_le)
qed

lemma bounded_fill_productive:
  "productive max' g \<Longrightarrow>
   \<exists>vs g'. bounded_fill max' cnt g = Some (vs, g') \<and> productive max' g'"
proof (induction cnt arbitrary: g)
  case 0
  then show ?case by simp
next
  case (Suc cnt)
  from random_bounded_productive [OF Suc.prems] obtain v g1 where
    d: "random_bounded max' g = Some (v, g1)" and p: "productive max' g1" by blast
  from Suc.IH [OF p] obtain vs g2 where
    "bounded_fill max' cnt g1 = Some (vs, g2)" "productive max' g2" by blast
  with d show ?case by simp
qed

lemma bounded_fill_length:
  "bounded_fill max' cnt g = Some (vs, g') \<Longrightarrow> length vs = cnt"
  by (induction cnt arbitrary: g vs) (auto split: option.splits)

lemma bounded_fill_le:
  "bounded_fill max' cnt g = Some (vs, g') \<Longrightarrow> v \<in> set vs \<Longrightarrow> v \<le> max'"
proof (induction cnt arbitrary: g vs)
  case 0
  then show ?case by simp
next
  case (Suc cnt)
  from Suc.prems(1) obtain w g1 ws where
    d: "random_bounded max' g = Some (w, g1)"
    and r: "bounded_fill max' cnt g1 = Some (ws, g')" and vs: "vs = w # ws"
    by (auto split: option.splits)
  from Suc.prems(2) vs consider "v = w" | "v \<in> set ws" by auto
  then show ?case
  proof cases
    case 1
    with random_bounded_le [OF d] show ?thesis by simp
  next
    case 2
    from Suc.IH [OF r 2] show ?thesis .
  qed
qed

lemma bit_length_bound: "n < 2 ^ bit_length n"
proof (induction n rule: bit_length.induct)
  case (1 n)
  show ?case
  proof (cases "n = 0")
    case True
    then show ?thesis by (simp add: bit_length.simps)
  next
    case False
    from 1 [OF False] have "n div 2 < 2 ^ bit_length (n div 2)" .
    then have "n < 2 * 2 ^ bit_length (n div 2)" by linarith
    with False show ?thesis by (subst bit_length.simps) simp
  qed
qed

lemma and_gen_mask: "w AND gen_mask max' = w mod 2 ^ bit_length max'"
proof -
  have "gen_mask max' = mask (bit_length max')"
    by (simp add: gen_mask_def mask_eq_exp_minus_1)
  then show ?thesis
    by (simp add: take_bit_eq_mask [symmetric] take_bit_eq_mod)
qed

lemma and_gen_mask_le: "w AND gen_mask max' \<le> gen_mask max'"
proof -
  have "w mod 2 ^ bit_length max' < 2 ^ bit_length max'" by simp
  then have "w mod 2 ^ bit_length max' \<le> 2 ^ bit_length max' - 1" by linarith
  moreover have "w AND gen_mask max' = w mod 2 ^ bit_length max'" by (rule and_gen_mask)
  moreover have "gen_mask max' = 2 ^ bit_length max' - 1" by (rule gen_mask_def)
  ultimately show ?thesis by simp
qed

lemma productive_all_kept:
  assumes "gen_mask max' \<le> max'"
  shows "productive max' g"
proof -
  have "accepted max' g j" for j
    using and_gen_mask_le [of _ max'] assms
    by (auto simp: accepted_def intro: order_trans)
  then show ?thesis unfolding productive_def by blast
qed

lemma gen_mask_1: "gen_mask 1 = 1"
  by code_simp

subsection \<open>randint, permutation and choice\<close>

lemma randint_returns:
  assumes "1 \<le> high" and "high \<le> 2 ^ 63"
    and "0 \<le> sz" and "sz < 2 ^ 60" and "sz \<le> int mem"
    and "productive (nat (high - 1)) g"
  shows "\<exists>vs g'. randint high sz mem g = Some (Inr vs, g') \<and> productive (nat (high - 1)) g'"
proof (cases "sz = 0")
  case True
  with assms(6) show ?thesis by (simp add: randint_def)
next
  case False
  from bounded_fill_productive [OF assms(6), of "nat sz"] obtain vs g' where
    "bounded_fill (nat (high - 1)) (nat sz) g = Some (vs, g')" "productive (nat (high - 1)) g'"
    by blast
  with False assms(1-5) show ?thesis by (simp add: randint_def)
qed

lemma randint_length:
  assumes "randint high sz mem g = Some (Inr vs, g')"
  shows "int (length vs) = sz"
proof (cases "sz = 0")
  case True
  with assms show ?thesis by (simp add: randint_def)
next
  case False
  with assms obtain ws where
    "bounded_fill (nat (high - 1)) (nat sz) g = Some (ws, g')" "vs = map int ws" "0 \<le> sz"
    by (auto simp: randint_def split: if_splits option.splits)
  with bounded_fill_length [of "nat (high - 1)" "nat sz" g ws g'] show ?thesis by simp
qed

lemma randint_range:
  assumes "randint high sz mem g = Some (Inr vs, g')" and "v \<in> set vs"
  shows "0 \<le> v \<and> v < high"
proof (cases "sz = 0")
  case True
  with assms show ?thesis by (simp add: randint_def)
next
  case False
  with assms(1) obtain ws where
    fill: "bounded_fill (nat (high - 1)) (nat sz) g = Some (ws, g')"
    and vs: "vs = map int ws" and high: "1 \<le> high"
    by (auto simp: randint_def split: if_splits option.splits)
  from assms(2) vs obtain w where w: "w \<in> set ws" "v = int w" by auto
  from bounded_fill_le [OF fill w(1)] have "w \<le> nat (high - 1)" .
  with w(2) high show ?thesis by simp
qed

lemma random_interval_le:
  "random_interval max' g = Some (j, g') \<Longrightarrow> j \<le> max'"
  by (auto simp: random_interval_def split: if_splits dest: bounded_masked_le)

lemma shuffle_length:
  "shuffle i xs g = Some (ys, g') \<Longrightarrow> length ys = length xs"
proof (induction i arbitrary: xs g)
  case 0
  then show ?case by simp
next
  case (Suc i)
  from Suc.prems obtain j g1 where
    "shuffle i (xs[Suc i := xs ! j, j := xs ! Suc i]) g1 = Some (ys, g')"
    by (auto split: option.splits)
  from Suc.IH [OF this] show ?case by simp
qed

lemma shuffle_set:
  "i < length xs \<Longrightarrow> shuffle i xs g = Some (ys, g') \<Longrightarrow> set ys \<subseteq> set xs"
proof (induction i arbitrary: xs g)
  case 0
  then show ?case by simp
next
  case (Suc i)
  from Suc.prems(2) obtain j g1 where
    d: "random_interval (Suc i) g = Some (j, g1)"
    and r: "shuffle i (xs[Suc i := xs ! j, j := xs ! Suc i]) g1 = Some (ys, g')"
    by (auto split: option.splits)
  let ?zs = "xs[Suc i := xs ! j, j := xs ! Suc i]"
  from random_interval_le [OF d] Suc.prems(1) have j: "j < length xs" by simp
  have "set ?zs \<subseteq> insert (xs ! Suc i) (set (xs[Suc i := xs ! j]))"
    by (rule set_update_subset_insert)
  also have "\<dots> \<subseteq> insert (xs ! Suc i) (insert (xs ! j) (set xs))"
    using set_update_subset_insert [of xs "Suc i" "xs ! j"] by blast
  also have "\<dots> \<subseteq> set xs" using j Suc.prems(1) by simp
  finally have sub: "set ?zs \<subseteq> set xs" .
  have "i < length ?zs" using Suc.prems(1) by simp
  from Suc.IH [OF this r] sub show ?case by blast
qed

lemma permutation_length:
  "permutation n mem g = Some (Inr arr, g') \<Longrightarrow> length arr = n"
  by (auto simp: permutation_def split: if_splits option.splits dest: shuffle_length)

lemma permutation_range:
  assumes "permutation n mem g = Some (Inr arr, g')" and "v \<in> set arr"
  shows "0 \<le> v \<and> v < int n"
proof -
  from assms(1) have sh: "shuffle (n - 1) (map int [0..<n]) g = Some (arr, g')"
    by (auto simp: permutation_def split: if_splits option.splits)
  show ?thesis
  proof (cases n)
    case 0
    with sh assms(2) show ?thesis by simp
  next
    case (Suc m)
    then have "n - 1 < length (map int [0..<n])" by simp
    from shuffle_set [OF this sh] assms(2) show ?thesis by auto
  qed
qed

lemma choice_replace_returns:
  assumes "1 \<le> a" and "a \<le> 2 ^ 63"
    and "0 \<le> sz" and "sz < 2 ^ 60" and "sz \<le> int mem"
    and "productive (nat (a - 1)) g"
  shows "\<exists>xs g'. choice a sz True mem g = Some (Inr xs, g') \<and> productive (nat (a - 1)) g'"
proof -
  have "choice a sz True mem g = randint a sz mem g"
    using assms(1,3,4) by (simp add: choice_def)
  with randint_returns [OF assms] show ?thesis by simp
qed

lemma choice_cases:
  assumes "choice a sz r mem g = Some (Inr xs, g')"
  obtains (with_replacement) "randint a sz mem g = Some (Inr xs, g')"
  | (without_replacement) perm where "0 \<le> sz" "sz \<le> a"
      "permutation (nat a) mem g = Some (Inr perm, g')" "xs = take (nat sz) perm"
  using assms
  by (auto simp: choice_def split: if_splits option.splits sum.splits prod.splits)

lemma choice_Inr_length:
  assumes "choice a sz r mem g = Some (Inr xs, g')"
  shows "int (length xs) = sz"
  using assms
proof (cases rule: choice_cases)
  case with_replacement
  then show ?thesis by (rule randint_length)
next
  case (without_replacement perm)
  from permutation_length [OF without_replacement(3)] without_replacement(1,2,4)
  show ?thesis by simp
qed

lemma choice_Inr_range:
  assumes "choice a sz r mem g = Some (Inr xs, g')" and "v \<in> set xs"
  shows "0 \<le> v \<and> v < a"
  using assms(1)
proof (cases rule: choice_cases)
  case with_replacement
  from randint_range [OF this assms(2)] show ?thesis .
next
  case (without_replacement perm)
  with assms(2) have "v \<in> set perm" by (auto dest: in_set_takeD)
  from permutation_range [OF without_replacement(3) this] without_replacement(1,2)
  show ?thesis by simp
qed

subsection \<open>The comprehension\<close>

lemma comprehension_Inr:
  "comprehension f items g = Some (Inr xss, g') \<Longrightarrow>
   list_all2 (\<lambda>item xs. \<exists>g1 g2. f item g1 = Some (Inr xs, g2)) items xss"
proof (induction items arbitrary: g xss)
  case Nil
  then show ?case by simp
next
  case (Cons item items)
  from Cons.prems obtain xs g1 yss where
    f: "f item g = Some (Inr xs, g1)"
    and rest: "comprehension f items g1 = Some (Inr yss, g')"
    and xss: "xss = xs # yss"
    by (auto split: option.splits prod.splits sum.splits)
  from Cons.IH [OF rest] f xss show ?case by auto
qed

lemma comprehension_returns:
  assumes "\<And>item g. item \<in> set items \<Longrightarrow> Q g \<Longrightarrow>
             \<exists>xs g'. f item g = Some (Inr xs, g') \<and> Q g'"
    and "Q g"
  shows "\<exists>xss g'. comprehension f items g = Some (Inr xss, g')"
  using assms
proof (induction items arbitrary: g)
  case Nil
  then show ?case by simp
next
  case (Cons item items)
  from Cons.prems(1) [of item g] Cons.prems(2) obtain xs g1 where
    f: "f item g = Some (Inr xs, g1)" and q: "Q g1" by auto
  have "\<exists>xss g'. comprehension f items g1 = Some (Inr xss, g')"
  proof (rule Cons.IH)
    show "\<exists>xs g'. f i h = Some (Inr xs, g') \<and> Q g'" if "i \<in> set items" "Q h" for i h
      using Cons.prems(1) [of i h] that by simp
    show "Q g1" by (rule q)
  qed
  then obtain yss g2 where "comprehension f items g1 = Some (Inr yss, g2)" by blast
  with f show ?case by simp
qed

lemma stages_of_comprehension:
  assumes "comprehension (\<lambda>item. choice a item r mem) items g = Some (Inr stages, g')"
  shows "length stages = length items"
    and "i < length items \<Longrightarrow> int (length (stages ! i)) = items ! i"
    and "i < length items \<Longrightarrow> v \<in> set (stages ! i) \<Longrightarrow> 0 \<le> v \<and> v < a"
proof -
  from comprehension_Inr [OF assms]
  have all2: "list_all2 (\<lambda>item xs. \<exists>g1 g2. choice a item r mem g1 = Some (Inr xs, g2))
                items stages" .
  then show "length stages = length items" by (simp add: list_all2_lengthD)
  have nth: "i < length items \<Longrightarrow>
      \<exists>g1 g2. choice a (items ! i) r mem g1 = Some (Inr (stages ! i), g2)"
    using all2 by (auto dest: list_all2_nthD)
  show "i < length items \<Longrightarrow> int (length (stages ! i)) = items ! i"
    using nth choice_Inr_length by blast
  show "i < length items \<Longrightarrow> v \<in> set (stages ! i) \<Longrightarrow> 0 \<le> v \<and> v < a"
    using nth choice_Inr_range by blast
qed

subsection \<open>The policy\<close>

lemma sample_search_alt:
  "sample_search st =
     (case get_prob (self st) of
        Inl e \<Rightarrow> Some (Inl e, st)
      | Inr prob \<Rightarrow>
          (case comprehension
                  (\<lambda>item. choice (CHOICE_NUM (self st)) item (prob \<noteq> Some []) (np_memory st))
                  (sta_num (self st)) (np_random st) of
             None \<Rightarrow> None
           | Some (Inl e, g') \<Rightarrow> Some (Inl e, st\<lparr>np_random := g'\<rparr>)
           | Some (Inr cand, g') \<Rightarrow> Some (Inr ([0] # cand @ [[0]]), st\<lparr>np_random := g'\<rparr>)))"
  by (simp add: sample_search_def split: sum.splits option.splits)

lemma sample_search_Inr:
  assumes "sample_search st = Some (Inr cand, st')"
  shows "\<exists>prob stages g'. get_prob (self st) = Inr prob \<and>
           comprehension
             (\<lambda>item. choice (CHOICE_NUM (self st)) item (prob \<noteq> Some []) (np_memory st))
             (sta_num (self st)) (np_random st) = Some (Inr stages, g') \<and>
           cand = [0] # stages @ [[0]] \<and> st' = st\<lparr>np_random := g'\<rparr>"
  using assms by (auto simp: sample_search_alt split: option.splits prod.splits sum.splits)

lemma sample_search_prior_unused:
  assumes "how_to_prob (self st) = ''pre_prob''" and "pre_prob (self st) \<noteq> Some []"
  shows "map_option (\<lambda>(r, st'). (r, np_random st')) (sample_search st)
           = map_option (\<lambda>(r, st'). (r, np_random st'))
               (sample_search (st\<lparr>self := (self st)\<lparr>how_to_prob := ''even''\<rparr>\<rparr>))"
  using assms
  by (auto simp: sample_search_alt get_prob_def split: option.splits prod.splits sum.splits)

lemma comprehension_replace_returns:
  assumes "1 \<le> a" and "a \<le> 2 ^ 63"
    and "\<forall>item\<in>set items. 0 \<le> item \<and> item < 2 ^ 60 \<and> item \<le> int mem"
    and "productive (nat (a - 1)) g"
  shows "\<exists>stages g'. comprehension (\<lambda>item. choice a item True mem) items g
                        = Some (Inr stages, g')"
proof (rule comprehension_returns [where Q = "productive (nat (a - 1))"])
  show "\<exists>xs g'. choice a item True mem h = Some (Inr xs, g') \<and> productive (nat (a - 1)) g'"
    if "item \<in> set items" "productive (nat (a - 1)) h" for item h
    using that assms(3) by (intro choice_replace_returns assms(1,2)) auto
  show "productive (nat (a - 1)) g" by (rule assms(4))
qed

subsection \<open>Exchanging two options in the raw words\<close>

lemma bit_length_le: "n < 2 ^ m \<Longrightarrow> bit_length n \<le> m"
proof (induction n arbitrary: m rule: bit_length.induct)
  case (1 n)
  show ?case
  proof (cases "n = 0")
    case True
    then show ?thesis by (simp add: bit_length.simps)
  next
    case False
    with "1.prems" obtain m' where m: "m = Suc m'" by (cases m) auto
    with "1.prems" have "n div 2 < 2 ^ m'" by auto
    from "1.IH" [OF False this] m False show ?thesis
      by (subst bit_length.simps) simp
  qed
qed

lemma exchange_le: "k \<le> m \<Longrightarrow> k' \<le> m \<Longrightarrow> exchange k k' v \<le> m \<longleftrightarrow> v \<le> (m::nat)"
  by (auto simp: exchange_def)

lemma exchange_exchange: "exchange k k' (exchange k k' v) = v"
  by (auto simp: exchange_def)

lemma exchange_int: "int (exchange k k' v) = exchange (int k) (int k') (int v)"
  by (simp add: exchange_def)

lemma exchange_less_pow:
  assumes "k \<le> max'" and "k' \<le> max'"
  shows "exchange k k' (w mod 2 ^ bit_length max') < 2 ^ bit_length max'"
proof -
  have "max' < 2 ^ bit_length max'" by (rule bit_length_bound)
  with assms have "k < 2 ^ bit_length max'" "k' < 2 ^ bit_length max'" by simp_all
  moreover have "w mod 2 ^ bit_length max' < 2 ^ bit_length max'" by simp
  ultimately show ?thesis by (simp add: exchange_def)
qed

lemma exchange_word_mod:
  assumes "k \<le> max'" and "k' \<le> max'"
  shows "exchange_word max' k k' w mod 2 ^ bit_length max'
           = exchange k k' (w mod 2 ^ bit_length max')"
  using exchange_less_pow [OF assms, of w] by (simp add: exchange_word_def)

lemma exchange_word_div:
  assumes "k \<le> max'" and "k' \<le> max'"
  shows "exchange_word max' k k' w div 2 ^ bit_length max' = w div 2 ^ bit_length max'"
  using exchange_less_pow [OF assms, of w] by (simp add: exchange_word_def)

lemma exchange_word_twice:
  assumes "k \<le> max'" and "k' \<le> max'"
  shows "exchange_word max' k k' (exchange_word max' k k' w) = w"
proof -
  have "exchange_word max' k k' (exchange_word max' k k' w) =
      w div 2 ^ bit_length max' * 2 ^ bit_length max' + w mod 2 ^ bit_length max'"
    by (subst exchange_word_def)
      (simp add: exchange_word_mod [OF assms] exchange_word_div [OF assms] exchange_exchange)
  also have "\<dots> = w" by (rule div_mult_mod_eq)
  finally show ?thesis .
qed

lemma less_pow_iff_div:
  assumes "b \<le> m"
  shows "(w::nat) < 2 ^ m \<longleftrightarrow> w div 2 ^ b < 2 ^ (m - b)"
proof -
  from assms obtain d where d: "m = b + d" using le_Suc_ex by blast
  have "w < 2 ^ b * 2 ^ d \<longleftrightarrow> w div 2 ^ b < 2 ^ d"
    by (simp add: div_less_iff_less_mult mult.commute)
  then show ?thesis by (simp add: d power_add)
qed

lemma exchange_word_less:
  assumes "k \<le> max'" and "k' \<le> max'" and "bit_length max' \<le> m"
  shows "exchange_word max' k k' w < 2 ^ m \<longleftrightarrow> w < 2 ^ m"
  by (simp add: less_pow_iff_div [OF assms(3)] exchange_word_div [OF assms(1,2)])

lemma exchange_word_and_mask:
  assumes "k \<le> max'" and "k' \<le> max'"
  shows "exchange_word max' k k' w AND gen_mask max' = exchange k k' (w AND gen_mask max')"
  by (simp add: and_gen_mask exchange_word_mod [OF assms])

text \<open>The redraw loop, for any way of taking raw words that goes along with the exchange.\<close>

lemma bounded_masked_exchange_Some:
  assumes m: "\<And>g. fst (nw (R g)) AND mk = exchange k k' (fst (nw g) AND mk)"
    and s: "\<And>g. snd (nw (R g)) = R (snd (nw g))"
    and k: "k \<le> mx" "k' \<le> mx"
    and run: "bounded_masked nw mx mk g = Some y"
  shows "bounded_masked nw mx mk (R g) = Some (exchange k k' (fst y), R (snd y))"
proof -
  have "nw' = nw \<longrightarrow> mx' = mx \<longrightarrow> mk' = mk \<longrightarrow>
          bounded_masked nw mx mk (R g') = Some (exchange k k' (fst y'), R (snd y'))"
    if "bounded_masked nw' mx' mk' g' = Some y'" for nw' mx' mk' g' y'
    using that
  proof (rule bounded_masked.raw_induct [where P = "\<lambda>nw' mx' mk' g' y'.
      nw' = nw \<longrightarrow> mx' = mx \<longrightarrow> mk' = mk \<longrightarrow>
          bounded_masked nw mx mk (R g') = Some (exchange k k' (fst y'), R (snd y'))", rotated])
    fix f :: "(rng \<Rightarrow> nat \<times> rng) \<Rightarrow> nat \<Rightarrow> nat \<Rightarrow> rng \<Rightarrow> (nat \<times> rng) option"
      and nw' mx' mk' g' y'
    assume IH: "\<And>a b c d y. f a b c d = Some y \<Longrightarrow>
        a = nw \<longrightarrow> b = mx \<longrightarrow> c = mk \<longrightarrow>
          bounded_masked nw mx mk (R d) = Some (exchange k k' (fst y), R (snd y))"
      and step: "(case nw' g' of (w, h) \<Rightarrow>
                    if mx' < w AND mk' then f nw' mx' mk' h else Some (w AND mk', h)) = Some y'"
    show "nw' = nw \<longrightarrow> mx' = mx \<longrightarrow> mk' = mk \<longrightarrow>
          bounded_masked nw mx mk (R g') = Some (exchange k k' (fst y'), R (snd y'))"
    proof (intro impI)
      assume eq: "nw' = nw" "mx' = mx" "mk' = mk"
      show "bounded_masked nw mx mk (R g') = Some (exchange k k' (fst y'), R (snd y'))"
      proof (cases "mx < fst (nw g') AND mk")
        case True
        with step eq have "f nw mx mk (snd (nw g')) = Some y'"
          by (simp add: case_prod_beta)
        from IH [OF this]
        have "bounded_masked nw mx mk (R (snd (nw g')))
                = Some (exchange k k' (fst y'), R (snd y'))" by simp
        moreover from True have "mx < fst (nw (R g')) AND mk"
          using exchange_le [OF k, of "fst (nw g') AND mk"] m [of g'] by simp
        from bounded_masked_redraw [of mx nw "R g'" mk] this
        have "bounded_masked nw mx mk (R g') = bounded_masked nw mx mk (snd (nw (R g')))" .
        ultimately show ?thesis by (simp add: s)
      next
        case False
        with step eq have y: "y' = (fst (nw g') AND mk, snd (nw g'))"
          by (auto simp: case_prod_beta)
        from False have "fst (nw (R g')) AND mk \<le> mx"
          using exchange_le [OF k, of "fst (nw g') AND mk"] m [of g'] by simp
        from bounded_masked_keep [of nw "R g'" mk mx] this
        show ?thesis by (simp add: y m s)
      qed
    qed
  qed
  from this [OF run] show ?thesis by simp
qed

lemma bounded_masked_exchange:
  assumes m: "\<And>g. fst (nw (R g)) AND mk = exchange k k' (fst (nw g) AND mk)"
    and s: "\<And>g. snd (nw (R g)) = R (snd (nw g))"
    and inv: "\<And>g. R (R g) = g"
    and k: "k \<le> mx" "k' \<le> mx"
  shows "bounded_masked nw mx mk (R g)
           = map_option (\<lambda>(v, g'). (exchange k k' v, R g')) (bounded_masked nw mx mk g)"
proof (cases "bounded_masked nw mx mk g")
  case (Some y)
  from bounded_masked_exchange_Some [of nw R mk k k' mx g y, OF m s k Some] Some show ?thesis
    by (simp add: case_prod_beta)
next
  case None
  have "bounded_masked nw mx mk (R g) = None"
  proof (rule ccontr)
    assume "bounded_masked nw mx mk (R g) \<noteq> None"
    then obtain y where "bounded_masked nw mx mk (R g) = Some y" by blast
    from bounded_masked_exchange_Some [of nw R mk k k' mx "R g" y, OF m s k this]
    have "bounded_masked nw mx mk g \<noteq> None" by (simp add: inv)
    with None show False by simp
  qed
  with None show ?thesis by simp
qed

text \<open>The 32-bit path.\<close>

lemma relabel_32:
  "max' \<le> 0xFFFFFFFF \<Longrightarrow> relabel max' k k' g i = exchange_word max' k k' (g i)"
  by (simp add: relabel_def)

lemma relabel_advance_32:
  "max' \<le> 0xFFFFFFFF \<Longrightarrow> relabel max' k k' (advance c g) = advance c (relabel max' k k' g)"
  by (simp add: relabel_def advance_def)

lemma relabel_relabel_32:
  assumes "max' \<le> 0xFFFFFFFF" and "k \<le> max'" and "k' \<le> max'"
  shows "relabel max' k k' (relabel max' k k' g) = g"
  by (rule ext) (simp add: relabel_32 [OF assms(1)] exchange_word_twice [OF assms(2,3)])

lemma masked_relabel_32:
  assumes "max' \<le> 0xFFFFFFFF" and "k \<le> max'" and "k' \<le> max'"
  shows "fst (next_uint32 (relabel max' k k' g)) AND gen_mask max'
           = exchange k k' (fst (next_uint32 g) AND gen_mask max')"
proof -
  have "max' < 2 ^ 32" using assms(1) by simp
  then have "bit_length max' \<le> 32" by (rule bit_length_le)
  then have dvd: "(2::nat) ^ bit_length max' dvd 2 ^ 32" by (rule le_imp_power_dvd)
  have red: "w mod 2 ^ 32 mod 2 ^ bit_length max' = w mod 2 ^ bit_length max'" for w :: nat
    using dvd by (rule mod_mod_cancel)
  have "fst (next_uint32 (relabel max' k k' g)) AND gen_mask max'
      = exchange_word max' k k' (g 0) mod 2 ^ 32 mod 2 ^ bit_length max'"
    by (simp only: and_gen_mask fst_next_uint32 relabel_32 [OF assms(1)])
  also have "\<dots> = exchange_word max' k k' (g 0) mod 2 ^ bit_length max'"
    by (rule red)
  also have "\<dots> = exchange k k' (g 0 mod 2 ^ bit_length max')"
    by (rule exchange_word_mod [OF assms(2,3)])
  also have "\<dots> = exchange k k' (g 0 mod 2 ^ 32 mod 2 ^ bit_length max')"
    by (simp only: red)
  finally show ?thesis by (simp only: and_gen_mask fst_next_uint32)
qed

text \<open>The 64-bit path.\<close>

lemma raw64_less: "raw64 g n < 2 ^ 64"
proof -
  have "g (2 * n) mod 2 ^ 32 \<le> 2 ^ 32 - 1" "g (2 * n + 1) mod 2 ^ 32 < (2::nat) ^ 32"
    by simp_all
  then have "(g (2 * n) mod 2 ^ 32) * 2 ^ 32 + g (2 * n + 1) mod 2 ^ 32
      < (2 ^ 32 - 1) * 2 ^ 32 + (2::nat) ^ 32"
    by (meson add_le_less_mono mult_le_mono1)
  then show ?thesis by (simp add: raw64_def)
qed

lemma fst_next_uint64: "fst (next_uint64 g) = raw64 g 0"
  by (simp add: next_uint64_def raw64_def)

lemma raw64_advance: "raw64 (advance 2 g) n = raw64 g (Suc n)"
  by (simp add: raw64_def advance_def)

lemma raw64_parts:
  "raw64 g n div 2 ^ 32 = g (2 * n) mod 2 ^ 32"
  "raw64 g n mod 2 ^ 32 = g (Suc (2 * n)) mod 2 ^ 32"
  by (simp_all add: raw64_def)

lemma relabel_64_even:
  "\<not> max' \<le> 0xFFFFFFFF \<Longrightarrow>
   relabel max' k k' g (2 * n)
     = g (2 * n) div 2 ^ 32 * 2 ^ 32 + exchange_word max' k k' (raw64 g n) div 2 ^ 32"
  by (simp add: relabel_def)

lemma relabel_64_odd:
  "\<not> max' \<le> 0xFFFFFFFF \<Longrightarrow>
   relabel max' k k' g (Suc (2 * n))
     = g (Suc (2 * n)) div 2 ^ 32 * 2 ^ 32 + exchange_word max' k k' (raw64 g n) mod 2 ^ 32"
  by (simp add: relabel_def)

lemma exchange_raw64_high:
  assumes "max' < 2 ^ 64" and "k \<le> max'" and "k' \<le> max'"
  shows "exchange_word max' k k' (raw64 g n) div 2 ^ 32 < 2 ^ 32"
proof -
  let ?E = "exchange_word max' k k' (raw64 g n)"
  from assms(1) have "bit_length max' \<le> 64" by (rule bit_length_le)
  from exchange_word_less [OF assms(2,3) this, of "raw64 g n"] raw64_less [of g n]
  have "?E < 2 ^ 64" by simp
  then have "?E < 2 ^ 32 * 2 ^ 32" by simp
  then show ?thesis
    by (simp only: div_less_iff_less_mult zero_less_power zero_less_numeral mult.commute)
qed

lemma raw64_relabel:
  assumes "\<not> max' \<le> 0xFFFFFFFF" and "max' < 2 ^ 64" and "k \<le> max'" and "k' \<le> max'"
  shows "raw64 (relabel max' k k' g) n = exchange_word max' k k' (raw64 g n)"
proof -
  let ?E = "exchange_word max' k k' (raw64 g n)"
  have hi: "?E div 2 ^ 32 < 2 ^ 32" by (rule exchange_raw64_high [OF assms(2,3,4)])
  have "raw64 (relabel max' k k' g) n = (?E div 2 ^ 32) * 2 ^ 32 + ?E mod 2 ^ 32"
    using hi
    by (simp add: raw64_def [of "relabel max' k k' g"] relabel_64_even [OF assms(1)]
        relabel_64_odd [OF assms(1)])
  also have "\<dots> = ?E" by (rule div_mult_mod_eq)
  finally show ?thesis .
qed

lemma relabel_advance_64:
  "\<not> max' \<le> 0xFFFFFFFF \<Longrightarrow>
   relabel max' k k' (advance 2 g) = advance 2 (relabel max' k k' g)"
  by (rule ext) (simp add: relabel_def advance_def raw64_def)

lemma relabel_relabel_64:
  assumes "\<not> max' \<le> 0xFFFFFFFF" and "max' < 2 ^ 64" and "k \<le> max'" and "k' \<le> max'"
  shows "relabel max' k k' (relabel max' k k' g) = g"
proof
  fix i
  let ?R = "relabel max' k k'"
  have twice: "exchange_word max' k k' (raw64 (?R g) n) = raw64 g n" for n
    by (simp add: raw64_relabel [OF assms] exchange_word_twice [OF assms(3,4)])
  have keep: "?R g j div 2 ^ 32 = g j div 2 ^ 32" for j
  proof (cases "even j")
    case True
    then obtain n where "j = 2 * n" by (elim evenE)
    then show ?thesis
      using exchange_raw64_high [OF assms(2,3,4), of g n]
      by (simp add: relabel_64_even [OF assms(1)])
  next
    case False
    then obtain n where "j = Suc (2 * n)" by (auto elim: oddE)
    then show ?thesis
      by (simp add: relabel_64_odd [OF assms(1)])
  qed
  show "?R (?R g) i = g i"
  proof (cases "even i")
    case True
    then obtain n where i: "i = 2 * n" by (elim evenE)
    have "?R (?R g) (2 * n) = g (2 * n) div 2 ^ 32 * 2 ^ 32 + raw64 g n div 2 ^ 32"
      by (simp only: relabel_64_even [OF assms(1), of k k' "?R g"] twice keep)
    also have "\<dots> = g (2 * n)" by (simp only: raw64_parts div_mult_mod_eq)
    finally show ?thesis by (simp add: i)
  next
    case False
    then obtain n where i: "i = Suc (2 * n)" by (auto elim: oddE)
    have "?R (?R g) (Suc (2 * n)) = g (Suc (2 * n)) div 2 ^ 32 * 2 ^ 32 + raw64 g n mod 2 ^ 32"
      by (simp only: relabel_64_odd [OF assms(1), of k k' "?R g"] twice keep)
    also have "\<dots> = g (Suc (2 * n))" by (simp only: raw64_parts div_mult_mod_eq)
    finally show ?thesis by (simp add: i)
  qed
qed

lemma masked_relabel_64:
  assumes "\<not> max' \<le> 0xFFFFFFFF" and "max' < 2 ^ 64" and "k \<le> max'" and "k' \<le> max'"
  shows "fst (next_uint64 (relabel max' k k' g)) AND gen_mask max'
           = exchange k k' (fst (next_uint64 g) AND gen_mask max')"
  by (simp add: fst_next_uint64 raw64_relabel [OF assms] exchange_word_and_mask [OF assms(3,4)])

lemma relabel_64_div:
  assumes "\<not> max' \<le> 0xFFFFFFFF" and "max' < 2 ^ 64" and "k \<le> max'" and "k' \<le> max'"
  shows "relabel max' k k' g j div 2 ^ 32 = g j div 2 ^ 32"
proof (cases "even j")
  case True
  then obtain n where "j = 2 * n" by (elim evenE)
  then show ?thesis
    using exchange_raw64_high [OF assms(2,3,4), of g n]
    by (simp add: relabel_64_even [OF assms(1)])
next
  case False
  then obtain n where "j = Suc (2 * n)" by (auto elim: oddE)
  then show ?thesis
    by (simp add: relabel_64_odd [OF assms(1)])
qed

lemma less_2_32_iff: "(w::nat) < 2 ^ 32 \<longleftrightarrow> w div 2 ^ 32 = 0"
  by (simp add: div_eq_0_iff)

lemma bit_length_32: "bit_length 0xFFFFFFFF = 32"
proof -
  have "(0xFFFFFFFF::nat) < 2 ^ 32" by simp
  then have "bit_length 0xFFFFFFFF \<le> 32" by (rule bit_length_le)
  moreover have "\<not> bit_length 0xFFFFFFFF < 32"
  proof
    assume "bit_length 0xFFFFFFFF < 32"
    then have "bit_length 0xFFFFFFFF \<le> 31" by simp
    then have "(2::nat) ^ bit_length 0xFFFFFFFF \<le> 2 ^ 31" by (rule power_increasing) simp
    moreover have "(0xFFFFFFFF::nat) < 2 ^ bit_length 0xFFFFFFFF" by (rule bit_length_bound)
    ultimately show False by simp
  qed
  ultimately show ?thesis by simp
qed

lemma relabel_0: "relabel 0 0 0 g = g"
  by (simp add: relabel_def exchange_word_def bit_length.simps exchange_def)

lemma random_bounded_relabel:
  assumes "max' < 2 ^ 64" and "k \<le> max'" and "k' \<le> max'"
  shows "random_bounded max' (relabel max' k k' g)
           = map_option (\<lambda>(v, g'). (exchange k k' v, relabel max' k k' g'))
               (random_bounded max' g)"
proof -
  consider "max' = 0" | "max' = 0xFFFFFFFF"
    | "max' \<noteq> 0" "max' < 0xFFFFFFFF" | "\<not> max' \<le> 0xFFFFFFFF"
    by linarith
  then show ?thesis
  proof cases
    case 1
    with assms have "k = 0" "k' = 0" by simp_all
    with 1 show ?thesis by (simp add: random_bounded_def relabel_0 exchange_def)
  next
    case 2
    then have le: "max' \<le> 0xFFFFFFFF" by simp
    have full: "v AND gen_mask max' = v" if "v \<le> 0xFFFFFFFF" for v :: nat
    proof -
      from that have "v < 2 ^ 32" by simp
      then show ?thesis by (simp add: and_gen_mask 2 bit_length_32)
    qed
    from masked_relabel_32 [OF le assms(2,3), of g]
    have "fst (next_uint32 (relabel max' k k' g)) = exchange k k' (fst (next_uint32 g))"
      by (simp add: full fst_next_uint32_less)
    moreover have "snd (next_uint32 (relabel max' k k' g))
                     = relabel max' k k' (snd (next_uint32 g))"
      by (simp add: snd_next_uint32 relabel_advance_32 [OF le])
    ultimately have "next_uint32 (relabel max' k k' g)
        = (exchange k k' (fst (next_uint32 g)), relabel max' k k' (snd (next_uint32 g)))"
      by (simp add: prod_eq_iff)
    with 2 show ?thesis by (simp add: random_bounded_def case_prod_beta)
  next
    case 3
    then have le: "max' \<le> 0xFFFFFFFF" by simp
    have "bounded_masked next_uint32 max' (gen_mask max') (relabel max' k k' g)
        = map_option (\<lambda>(v, g'). (exchange k k' v, relabel max' k k' g'))
            (bounded_masked next_uint32 max' (gen_mask max') g)"
    proof (rule bounded_masked_exchange)
      show "fst (next_uint32 (relabel max' k k' h)) AND gen_mask max'
              = exchange k k' (fst (next_uint32 h) AND gen_mask max')" for h
        by (rule masked_relabel_32 [OF le assms(2,3)])
      show "snd (next_uint32 (relabel max' k k' h)) = relabel max' k k' (snd (next_uint32 h))"
        for h
        by (simp add: snd_next_uint32 relabel_advance_32 [OF le])
      show "relabel max' k k' (relabel max' k k' h) = h" for h
        by (rule relabel_relabel_32 [OF le assms(2,3)])
    qed (rule assms(2), rule assms(3))
    with 3 show ?thesis by (simp add: random_bounded_def)
  next
    case 4
    have "bounded_masked next_uint64 max' (gen_mask max') (relabel max' k k' g)
        = map_option (\<lambda>(v, g'). (exchange k k' v, relabel max' k k' g'))
            (bounded_masked next_uint64 max' (gen_mask max') g)"
    proof (rule bounded_masked_exchange)
      show "fst (next_uint64 (relabel max' k k' h)) AND gen_mask max'
              = exchange k k' (fst (next_uint64 h) AND gen_mask max')" for h
        by (rule masked_relabel_64 [OF 4 assms])
      show "snd (next_uint64 (relabel max' k k' h)) = relabel max' k k' (snd (next_uint64 h))"
        for h
        by (simp add: snd_next_uint64 relabel_advance_64 [OF 4])
      show "relabel max' k k' (relabel max' k k' h) = h" for h
        by (rule relabel_relabel_64 [OF 4 assms])
    qed (rule assms(2), rule assms(3))
    with 4 show ?thesis by (simp add: random_bounded_def)
  qed
qed

lemma bounded_fill_relabel:
  assumes "max' < 2 ^ 64" and "k \<le> max'" and "k' \<le> max'"
  shows "bounded_fill max' cnt (relabel max' k k' g)
           = map_option (\<lambda>(vs, g'). (map (exchange k k') vs, relabel max' k k' g'))
               (bounded_fill max' cnt g)"
proof (induction cnt arbitrary: g)
  case 0
  then show ?case by simp
next
  case (Suc cnt)
  show ?case
    by (simp add: random_bounded_relabel [OF assms] Suc.IH split: option.splits)
qed

lemma randint_relabel:
  assumes "nat (high - 1) < 2 ^ 64" and "k \<le> nat (high - 1)" and "k' \<le> nat (high - 1)"
  shows "randint high sz mem (relabel (nat (high - 1)) k k' g)
           = map_option
               (\<lambda>(r, g'). (map_sum id (map (exchange (int k) (int k'))) r,
                            relabel (nat (high - 1)) k k' g'))
               (randint high sz mem g)"
proof -
  have "map int (map (exchange k k') vs) = map (exchange (int k) (int k')) (map int vs)" for vs
    by (simp add: exchange_int)
  then show ?thesis
    by (simp add: randint_def bounded_fill_relabel [OF assms] split: option.splits)
qed

lemma choice_relabel:
  assumes "nat (a - 1) < 2 ^ 64" and "k \<le> nat (a - 1)" and "k' \<le> nat (a - 1)"
  shows "choice a sz True mem (relabel (nat (a - 1)) k k' g)
           = map_option
               (\<lambda>(r, g'). (map_sum id (map (exchange (int k) (int k'))) r,
                            relabel (nat (a - 1)) k k' g'))
               (choice a sz True mem g)"
  by (simp add: choice_def randint_relabel [OF assms])

lemma comprehension_relabel:
  assumes "\<And>item g. f item (R g)
             = map_option (\<lambda>(r, g'). (map_sum id (map E) r, R g')) (f item g)"
  shows "comprehension f items (R g)
           = map_option (\<lambda>(r, g'). (map_sum id (map (map E)) r, R g'))
               (comprehension f items g)"
proof (induction items arbitrary: g)
  case Nil
  then show ?case by simp
next
  case (Cons item items)
  show ?case
    by (simp add: assms Cons.IH split: option.splits sum.splits prod.splits)
qed

lemma sample_search_relabel:
  assumes "how_to_prob (self st) = ''even''"
    and "nat (CHOICE_NUM (self st) - 1) < 2 ^ 64"
    and "k \<le> nat (CHOICE_NUM (self st) - 1)" and "k' \<le> nat (CHOICE_NUM (self st) - 1)"
    and "sample_search st = Some (Inr ([0] # stages @ [[0]]), st')"
  shows "sample_search
           (st\<lparr>np_random := relabel (nat (CHOICE_NUM (self st) - 1)) k k' (np_random st)\<rparr>)
         = Some (Inr ([0] # map (map (exchange (int k) (int k'))) stages @ [[0]]),
                 st'\<lparr>np_random := relabel (nat (CHOICE_NUM (self st) - 1)) k k' (np_random st')\<rparr>)"
proof -
  let ?R = "relabel (nat (CHOICE_NUM (self st) - 1)) k k'"
  let ?f = "\<lambda>item. choice (CHOICE_NUM (self st)) item True (np_memory st)"
  have prob: "get_prob (self st) = Inr None"
    using assms(1) by (simp add: get_prob_def)
  from assms(5) prob obtain g' where
    comp: "comprehension ?f (sta_num (self st)) (np_random st) = Some (Inr stages, g')"
    and st': "st' = st\<lparr>np_random := g'\<rparr>"
    by (auto simp: sample_search_alt split: option.splits sum.splits prod.splits)
  have "comprehension ?f (sta_num (self st)) (?R (np_random st))
      = map_option (\<lambda>(r, g'). (map_sum id (map (map (exchange (int k) (int k')))) r, ?R g'))
          (comprehension ?f (sta_num (self st)) (np_random st))"
    by (rule comprehension_relabel) (rule choice_relabel [OF assms(2,3,4)])
  with comp have "comprehension ?f (sta_num (self st)) (?R (np_random st))
      = Some (Inr (map (map (exchange (int k) (int k'))) stages), ?R g')"
    by simp
  with prob st' show ?thesis by (simp add: sample_search_alt)
qed

lemma relabel_relabel:
  assumes "max' < 2 ^ 64" and "k \<le> max'" and "k' \<le> max'"
  shows "relabel max' k k' (relabel max' k k' g) = g"
proof (cases "max' \<le> 0xFFFFFFFF")
  case True
  then show ?thesis by (rule relabel_relabel_32 [OF _ assms(2,3)])
next
  case False
  then show ?thesis by (rule relabel_relabel_64 [OF _ assms])
qed

lemma relabel_local:
  assumes "g (2 * n) = h (2 * n)" and "g (Suc (2 * n)) = h (Suc (2 * n))"
  shows "relabel max' k k' g (2 * n) = relabel max' k k' h (2 * n)"
    and "relabel max' k k' g (Suc (2 * n)) = relabel max' k k' h (Suc (2 * n))"
proof -
  have "raw64 g n = raw64 h n" using assms by (simp add: raw64_def)
  with assms show "relabel max' k k' g (2 * n) = relabel max' k k' h (2 * n)"
    and "relabel max' k k' g (Suc (2 * n)) = relabel max' k k' h (Suc (2 * n))"
    by (simp_all add: relabel_def)
qed

lemma relabel_word_range:
  assumes "max' < 2 ^ 64" and "k \<le> max'" and "k' \<le> max'"
  shows "relabel max' k k' g i < 2 ^ 32 \<longleftrightarrow> g i < 2 ^ 32"
proof (cases "max' \<le> 0xFFFFFFFF")
  case True
  then have "max' < 2 ^ 32" by simp
  then have "bit_length max' \<le> 32" by (rule bit_length_le)
  from exchange_word_less [OF assms(2,3) this] True show ?thesis
    by (simp only: relabel_32 [OF True])
next
  case False
  show ?thesis
    by (simp only: less_2_32_iff relabel_64_div [OF False assms])
qed

section \<open>Specified properties of the sampler\<close>

text \<open>
  C5: a policy string that is neither \<^verbatim>\<open>'even'\<close> nor \<^verbatim>\<open>'pre_prob'\<close> makes
  \<^verbatim>\<open>sample_search\<close> raise the \<^verbatim>\<open>ValueError\<close> of \<^verbatim>\<open>get_prob\<close>
  (the configuration error) for every configuration and every generator state. The
  call comes back, no candidate is returned, no default policy is used, and nothing is
  drawn from the generator: the state is returned as it was.
\<close>

theorem sample_search_unsupported_policy:
  assumes "how_to_prob (self st) \<noteq> ''even''" and "how_to_prob (self st) \<noteq> ''pre_prob''"
  shows "sample_search st = Some (Inl (ValueError ''prob method not supported''), st)"
  using assms by (simp add: sample_search_def get_prob_def)

theorem sample_search_unsupported_policy_witness:
  "how_to_prob (init ''random'' None 6 [4, 4]) \<noteq> ''even'' \<and>
   how_to_prob (init ''random'' None 6 [4, 4]) \<noteq> ''pre_prob'' \<and>
   map_option fst
     (sample_search \<lparr>self = init ''random'' None 6 [4, 4], np_random = (\<lambda>i. i),
                     np_memory = 8\<rparr>)
     = Some (Inl (ValueError ''prob method not supported''))"
proof -
  let ?st = "\<lparr>self = init ''random'' None 6 [4, 4], np_random = (\<lambda>i. i), np_memory = 8\<rparr>"
  have h1: "how_to_prob (self ?st) \<noteq> ''even''" by (simp add: init_def)
  have h2: "how_to_prob (self ?st) \<noteq> ''pre_prob''" by (simp add: init_def)
  from sample_search_unsupported_policy [OF h1 h2] h1 h2 show ?thesis by simp
qed

text \<open>
  C6: \<^verbatim>\<open>sample_final\<close> delegates to \<^verbatim>\<open>sample_search\<close>: from the same object and the
  same generator state both return the same outcome and leave the same state, or
  neither returns, so every property of one is a property of the other.
\<close>

theorem sample_final_is_sample_search: "sample_final st = sample_search st"
  by (simp add: sample_final_def)

text \<open>
  C9: a call of \<^verbatim>\<open>sample_search\<close> or \<^verbatim>\<open>sample_final\<close> that comes back, with a
  candidate or with an exception, leaves the four fields of the object as they were;
  the state after the call differs from the state before it in the generator at most.
\<close>

theorem sample_search_frame:
  "(\<forall>r st'. sample_search st = Some (r, st') \<longrightarrow> self st' = self st) \<and>
   (\<forall>r st'. sample_final st = Some (r, st') \<longrightarrow> self st' = self st) \<and>
   (\<forall>r st'. sample_search st = Some (r, st') \<longrightarrow> (\<exists>g'. st' = st\<lparr>np_random := g'\<rparr>)) \<and>
   (\<forall>r st'. sample_final st = Some (r, st') \<longrightarrow> (\<exists>g'. st' = st\<lparr>np_random := g'\<rparr>))"
proof -
  have "\<exists>g'. st' = st\<lparr>np_random := g'\<rparr>" if "sample_search st = Some (r, st')" for r st'
  proof (cases "get_prob (self st)")
    case (Inl e)
    with that have "st' = st\<lparr>np_random := np_random st\<rparr>"
      by (simp add: sample_search_alt)
    then show ?thesis by blast
  next
    case (Inr prob)
    with that show ?thesis
      by (auto simp: sample_search_alt split: option.splits prod.splits sum.splits)
  qed
  then show ?thesis by (auto simp: sample_final_def)
qed

theorem sample_search_frame_witness:
  "map_option fst
     (sample_search \<lparr>self = init ''even'' None 3 [2], np_random = (\<lambda>i. i + 2),
                     np_memory = 8\<rparr>)
     = Some (Inr [[0], [2, 0], [0]]) \<and>
   map_option (\<lambda>(r, st'). self st')
     (sample_search \<lparr>self = init ''even'' None 3 [2], np_random = (\<lambda>i. i + 2),
                     np_memory = 8\<rparr>)
     = Some (init ''even'' None 3 [2]) \<and>
   map_option (\<lambda>(r, st'). self st')
     (sample_final \<lparr>self = init ''even'' None 3 [2], np_random = (\<lambda>i. i + 2),
                    np_memory = 8\<rparr>)
     = Some (init ''even'' None 3 [2])"
proof -
  let ?st = "\<lparr>self = init ''even'' None 3 [2], np_random = (\<lambda>i. i + 2), np_memory = 8\<rparr>"
  have run: "map_option fst (sample_search ?st) = Some (Inr [[0], [2, 0], [0]])"
    by code_simp
  then obtain st' where s: "sample_search ?st = Some (Inr [[0], [2, 0], [0]], st')"
    by (cases "sample_search ?st") auto
  then have f: "sample_final ?st = Some (Inr [[0], [2, 0], [0]], st')"
    by (simp add: sample_final_def)
  note fr = sample_search_frame [of ?st]
  from fr s have "self st' = self ?st" by blast
  moreover from fr f have "self st' = self ?st" by blast
  ultimately show ?thesis using run s f by simp
qed

text \<open>
  C4: in every candidate that \<^verbatim>\<open>sample_search\<close> returns, under whatever configuration,
  every entry of every interior stage (every stage but the first and the last) is at
  least 0 and below \<open>CHOICE_NUM\<close>.
\<close>

theorem sample_search_range:
  assumes "sample_search st = Some (Inr cand, st')"
    and "0 < i" and "i < length cand - 1" and "v \<in> set (cand ! i)"
  shows "0 \<le> v \<and> v < CHOICE_NUM (self st)"
proof -
  from sample_search_Inr [OF assms(1)] obtain prob :: "rat list option" and stages g' where
    comp: "comprehension
             (\<lambda>item. choice (CHOICE_NUM (self st)) item (prob \<noteq> Some []) (np_memory st))
             (sta_num (self st)) (np_random st) = Some (Inr stages, g')"
    and cand: "cand = [0] # stages @ [[0]]" by blast
  from assms(2) obtain j where i: "i = Suc j" by (cases i) simp_all
  with assms(3) cand have j: "j < length stages" by simp
  with cand i have nth: "cand ! i = stages ! j" by (simp add: nth_append)
  from j stages_of_comprehension(1) [OF comp] have "j < length (sta_num (self st))" by simp
  from stages_of_comprehension(3) [OF comp this] assms(4) nth show ?thesis by simp
qed

theorem sample_search_range_witness:
  "map_option fst
     (sample_search \<lparr>self = init ''even'' None 3 [2], np_random = (\<lambda>i. i + 2),
                     np_memory = 8\<rparr>)
     = Some (Inr [[0], [2, 0], [0]]) \<and>
   (0::nat) < 1 \<and> 1 < length [[0], [2, 0], [0::int]] - 1 \<and>
   (2::int) \<in> set ([[0], [2, 0], [0]] ! 1) \<and>
   (0::int) \<le> 2 \<and> 2 < CHOICE_NUM (init ''even'' None 3 [2])"
proof -
  let ?st = "\<lparr>self = init ''even'' None 3 [2], np_random = (\<lambda>i. i + 2), np_memory = 8\<rparr>"
  let ?cand = "[[0], [2, 0], [0::int]]"
  have run: "map_option fst (sample_search ?st) = Some (Inr ?cand)" by code_simp
  then obtain st' where h1: "sample_search ?st = Some (Inr ?cand, st')"
    by (cases "sample_search ?st") auto
  have h2: "(0::nat) < 1" by simp
  have h3: "1 < length ?cand - 1" by simp
  have h4: "(2::int) \<in> set (?cand ! 1)" by simp
  from sample_search_range [OF h1 h2 h3 h4] have "(0::int) \<le> 2 \<and> 2 < CHOICE_NUM (self ?st)" .
  with run h4 show ?thesis by simp
qed

text \<open>
  C3: on a valid skeleton, under either recognised policy, \<^verbatim>\<open>sample_search\<close> returns a
  candidate that has two stages more than \<open>sta_num\<close> has entries, whose first and last
  stage are \<open>[0]\<close> and whose interior stage \<open>i\<close> has \<open>sta_num[i]\<close> entries. Valid means:
  \<open>CHOICE_NUM\<close> is at least 1 and at most \<open>2 ^ 63\<close>, the largest bound numpy's
  \<^verbatim>\<open>randint\<close> takes; every slot count is not negative and is a size numpy can
  allocate, below \<open>2 ^ 60\<close> and within the memory of the process; under \<^verbatim>\<open>'pre_prob'\<close>
  the prior is not the empty tuple, as every prior of length \<open>CHOICE_NUM\<close> is. The
  generator must be productive for the bound \<open>CHOICE_NUM - 1\<close>: on a generator that
  only ever delivers words the draw rejects, numpy redraws for ever and the call does
  not return.
\<close>

theorem sample_search_shape:
  assumes "1 \<le> CHOICE_NUM (self st)" and "CHOICE_NUM (self st) \<le> 2 ^ 63"
    and "\<forall>item\<in>set (sta_num (self st)).
           0 \<le> item \<and> item < 2 ^ 60 \<and> item \<le> int (np_memory st)"
    and "how_to_prob (self st) = ''even'' \<or>
         how_to_prob (self st) = ''pre_prob'' \<and> pre_prob (self st) \<noteq> Some []"
    and "productive (nat (CHOICE_NUM (self st) - 1)) (np_random st)"
  shows "\<exists>cand st'. sample_search st = Some (Inr cand, st') \<and>
           length cand = length (sta_num (self st)) + 2 \<and>
           cand ! 0 = [0] \<and> last cand = [0] \<and>
           (\<forall>i<length (sta_num (self st)).
              int (length (cand ! Suc i)) = sta_num (self st) ! i)"
proof -
  from assms(4) obtain prob where prob: "get_prob (self st) = Inr prob" "prob \<noteq> Some []"
    by (auto simp: get_prob_def)
  from comprehension_replace_returns [OF assms(1,2,3,5)] obtain stages g' where
    comp: "comprehension (\<lambda>item. choice (CHOICE_NUM (self st)) item True (np_memory st))
             (sta_num (self st)) (np_random st) = Some (Inr stages, g')"
    by blast
  let ?cand = "[0] # stages @ [[0]]"
  have run: "sample_search st = Some (Inr ?cand, st\<lparr>np_random := g'\<rparr>)"
    using prob comp by (simp add: sample_search_alt)
  have len: "length stages = length (sta_num (self st))"
    by (rule stages_of_comprehension(1) [OF comp])
  have "\<forall>i<length (sta_num (self st)). int (length (?cand ! Suc i)) = sta_num (self st) ! i"
    using stages_of_comprehension(2) [OF comp] len by (simp add: nth_append)
  with run len show ?thesis by simp
qed

theorem sample_search_shape_witness:
  "1 \<le> CHOICE_NUM (init ''pre_prob'' (Some [1 / 4, 3 / 4]) 2 [2, 1]) \<and>
   CHOICE_NUM (init ''pre_prob'' (Some [1 / 4, 3 / 4]) 2 [2, 1]) \<le> 2 ^ 63 \<and>
   list_all (\<lambda>item. 0 \<le> item \<and> item < 2 ^ 60 \<and> item \<le> 8)
     (sta_num (init ''pre_prob'' (Some [1 / 4, 3 / 4]) 2 [2, 1])) \<and>
   how_to_prob (init ''pre_prob'' (Some [1 / 4, 3 / 4]) 2 [2, 1]) = ''pre_prob'' \<and>
   pre_prob (init ''pre_prob'' (Some [1 / 4, 3 / 4]) 2 [2, 1]) \<noteq> Some [] \<and>
   productive 1 (\<lambda>i. i) \<and>
   (\<exists>cand st'.
      sample_search \<lparr>self = init ''pre_prob'' (Some [1 / 4, 3 / 4]) 2 [2, 1],
                     np_random = (\<lambda>i. i), np_memory = 8\<rparr> = Some (Inr cand, st') \<and>
      length cand = 4 \<and> cand ! 0 = [0] \<and> last cand = [0] \<and>
      int (length (cand ! 1)) = 2 \<and> int (length (cand ! 2)) = 1)"
proof -
  let ?m = "init ''pre_prob'' (Some [1 / 4, 3 / 4]) 2 [2, 1]"
  let ?st = "\<lparr>self = ?m, np_random = (\<lambda>i. i), np_memory = 8\<rparr>"
  have h1: "1 \<le> CHOICE_NUM (self ?st)" by (simp add: init_def)
  have h2: "CHOICE_NUM (self ?st) \<le> 2 ^ 63" by (simp add: init_def)
  have h3: "\<forall>item\<in>set (sta_num (self ?st)).
              0 \<le> item \<and> item < 2 ^ 60 \<and> item \<le> int (np_memory ?st)"
    by (simp add: init_def)
  have h4: "how_to_prob (self ?st) = ''even'' \<or>
            how_to_prob (self ?st) = ''pre_prob'' \<and> pre_prob (self ?st) \<noteq> Some []"
    by (simp add: init_def)
  have p: "productive 1 (\<lambda>i. i)"
    by (rule productive_all_kept) (simp only: gen_mask_1 order_refl)
  then have h5: "productive (nat (CHOICE_NUM (self ?st) - 1)) (np_random ?st)"
    by (simp add: init_def)
  from sample_search_shape [OF h1 h2 h3 h4 h5] obtain cand st' where
    run: "sample_search ?st = Some (Inr cand, st')"
    and len: "length cand = length (sta_num (self ?st)) + 2"
    and ends: "cand ! 0 = [0]" "last cand = [0]"
    and inner: "\<forall>i<length (sta_num (self ?st)).
                  int (length (cand ! Suc i)) = sta_num (self ?st) ! i"
    by blast
  from len have len4: "length cand = 4" by (simp add: init_def)
  from inner have "int (length (cand ! Suc 0)) = sta_num (self ?st) ! 0"
    by (simp add: init_def)
  then have s1: "int (length (cand ! 1)) = 2" by (simp add: init_def)
  from inner have "int (length (cand ! Suc 1)) = sta_num (self ?st) ! 1"
    by (simp add: init_def)
  then have s2: "int (length (cand ! 2)) = 1" by (simp add: init_def numeral_2_eq_2)
  from run len4 ends s1 s2 have
    "\<exists>cand st'. sample_search ?st = Some (Inr cand, st') \<and>
       length cand = 4 \<and> cand ! 0 = [0] \<and> last cand = [0] \<and>
       int (length (cand ! 1)) = 2 \<and> int (length (cand ! 2)) = 1"
    by blast
  with p show ?thesis by (simp add: init_def)
qed

text \<open>
  C7: under \<^verbatim>\<open>'even'\<close> the probability vector that \<^verbatim>\<open>get_prob\<close> resolves is \<^verbatim>\<open>None\<close>,
  and the draw treats all options alike. Take any two options \<open>k\<close> and \<open>k'\<close> and exchange
  them in the masked part of every raw word of the generator: the call then returns the
  same candidate with \<open>k\<close> and \<open>k'\<close> exchanged in every slot of every interior stage, and
  leaves the generator where it would have left it, exchanged likewise. The exchange
  is its own inverse, settles the words \<open>2 n\<close> and \<open>2 n + 1\<close> from those two words
  alone, and keeps the 32-bit words among themselves, so it permutes the raw words: a
  generator whose words are independent and uniform is turned into one of the same
  kind. Hence a slot holds \<open>k\<close> as often as it holds \<open>k'\<close>, which for \<open>CHOICE_NUM\<close> options
  is the probability \<open>1 / CHOICE_NUM\<close> each.
\<close>

theorem sample_search_uniform:
  assumes "how_to_prob (self st) = ''even''"
    and "1 \<le> CHOICE_NUM (self st)" and "CHOICE_NUM (self st) \<le> 2 ^ 63"
    and "int k < CHOICE_NUM (self st)" and "int k' < CHOICE_NUM (self st)"
  shows "get_prob (self st) = Inr None \<and>
    (\<forall>stages st'.
       sample_search st = Some (Inr ([0] # stages @ [[0]]), st') \<longrightarrow>
       sample_search
         (st\<lparr>np_random := relabel (nat (CHOICE_NUM (self st) - 1)) k k' (np_random st)\<rparr>)
         = Some (Inr ([0] # map (map (exchange (int k) (int k'))) stages @ [[0]]),
                 st'\<lparr>np_random :=
                       relabel (nat (CHOICE_NUM (self st) - 1)) k k' (np_random st')\<rparr>)) \<and>
    (\<forall>g. relabel (nat (CHOICE_NUM (self st) - 1)) k k'
            (relabel (nat (CHOICE_NUM (self st) - 1)) k k' g) = g) \<and>
    (\<forall>g h n. g (2 * n) = h (2 * n) \<and> g (Suc (2 * n)) = h (Suc (2 * n)) \<longrightarrow>
       relabel (nat (CHOICE_NUM (self st) - 1)) k k' g (2 * n)
         = relabel (nat (CHOICE_NUM (self st) - 1)) k k' h (2 * n) \<and>
       relabel (nat (CHOICE_NUM (self st) - 1)) k k' g (Suc (2 * n))
         = relabel (nat (CHOICE_NUM (self st) - 1)) k k' h (Suc (2 * n))) \<and>
    (\<forall>g i. relabel (nat (CHOICE_NUM (self st) - 1)) k k' g i < 2 ^ 32 \<longleftrightarrow> g i < 2 ^ 32)"
proof -
  let ?max = "nat (CHOICE_NUM (self st) - 1)"
  have mx: "?max < 2 ^ 64" using assms(2,3) by simp
  have k: "k \<le> ?max" "k' \<le> ?max" using assms(4,5) by simp_all
  have prob: "get_prob (self st) = Inr None"
    using assms(1) by (simp add: get_prob_def)
  from prob sample_search_relabel [OF assms(1) mx k] relabel_relabel [OF mx k]
    relabel_local [of _ _ _ ?max k k'] relabel_word_range [OF mx k]
  show ?thesis by blast
qed

theorem sample_search_uniform_witness:
  "how_to_prob (init ''even'' None 3 [2, 2]) = ''even'' \<and>
   1 \<le> CHOICE_NUM (init ''even'' None 3 [2, 2]) \<and>
   CHOICE_NUM (init ''even'' None 3 [2, 2]) \<le> 2 ^ 63 \<and>
   int 0 < CHOICE_NUM (init ''even'' None 3 [2, 2]) \<and>
   int 2 < CHOICE_NUM (init ''even'' None 3 [2, 2]) \<and>
   get_prob (init ''even'' None 3 [2, 2]) = Inr None \<and>
   map_option fst
     (sample_search \<lparr>self = init ''even'' None 3 [2, 2], np_random = (\<lambda>i. i),
                     np_memory = 8\<rparr>)
     = Some (Inr [[0], [0, 1], [2, 0], [0]]) \<and>
   map_option fst
     (sample_search \<lparr>self = init ''even'' None 3 [2, 2],
                     np_random = relabel 2 0 2 (\<lambda>i. i), np_memory = 8\<rparr>)
     = Some (Inr [[0], [2, 1], [0, 2], [0]]) \<and>
   relabel 2 0 2 (relabel 2 0 2 (\<lambda>i. i)) = (\<lambda>i. i)"
proof -
  let ?st = "\<lparr>self = init ''even'' None 3 [2, 2], np_random = (\<lambda>i. i), np_memory = 8\<rparr>"
  have h1: "how_to_prob (self ?st) = ''even''" by (simp add: init_def)
  have h2: "1 \<le> CHOICE_NUM (self ?st)" by (simp add: init_def)
  have h3: "CHOICE_NUM (self ?st) \<le> 2 ^ 63" by (simp add: init_def)
  have h4: "int 0 < CHOICE_NUM (self ?st)" by (simp add: init_def)
  have h5: "int 2 < CHOICE_NUM (self ?st)" by (simp add: init_def)
  have mx: "nat (CHOICE_NUM (self ?st) - 1) = 2" by (simp add: init_def)
  note u = sample_search_uniform [OF h1 h2 h3 h4 h5, unfolded mx]
  from u have a: "get_prob (self ?st) = Inr None" by blast
  have run: "map_option fst (sample_search ?st) = Some (Inr [[0], [0, 1], [2, 0], [0]])"
    by code_simp
  then obtain st' where
    s: "sample_search ?st = Some (Inr ([0] # [[0, 1], [2, 0]] @ [[0]]), st')"
    by (cases "sample_search ?st") auto
  from u s have "sample_search (?st\<lparr>np_random := relabel 2 0 2 (np_random ?st)\<rparr>)
      = Some (Inr ([0] # map (map (exchange (int 0) (int 2))) [[0, 1], [2, 0]] @ [[0]]),
              st'\<lparr>np_random := relabel 2 0 2 (np_random st')\<rparr>)"
    by blast
  then have b: "map_option fst (sample_search
        \<lparr>self = init ''even'' None 3 [2, 2], np_random = relabel 2 0 2 (\<lambda>i. i), np_memory = 8\<rparr>)
      = Some (Inr [[0], [2, 1], [0, 2], [0]])"
    by (simp add: exchange_def)
  from u have c: "relabel 2 0 2 (relabel 2 0 2 (\<lambda>i. i)) = (\<lambda>i. i)" by blast
  from a run b c show ?thesis by (simp add: init_def)
qed

text \<open>
  C8: \<^verbatim>\<open>__init__\<close> checks nothing. Given a policy string that is neither \<^verbatim>\<open>'even'\<close> nor
  \<^verbatim>\<open>'pre_prob'\<close> it builds the object with that string stored as it is; the
  \<^verbatim>\<open>ValueError\<close> appears when \<^verbatim>\<open>get_prob\<close> runs, that is on the first call of
  \<^verbatim>\<open>sample_search\<close>, in whatever state the generator is.
\<close>

theorem init_accepts_any_policy:
  assumes "how \<noteq> ''even''" and "how \<noteq> ''pre_prob''"
  shows "init how pre n sta =
           \<lparr>how_to_prob = how, pre_prob = pre, CHOICE_NUM = n, sta_num = sta\<rparr> \<and>
         get_prob (init how pre n sta) = Inl (ValueError ''prob method not supported'') \<and>
         sample_search \<lparr>self = init how pre n sta, np_random = g, np_memory = mem\<rparr> =
           Some (Inl (ValueError ''prob method not supported''),
                 \<lparr>self = init how pre n sta, np_random = g, np_memory = mem\<rparr>)"
  using assms by (simp add: init_def get_prob_def sample_search_def)

theorem init_accepts_any_policy_witness:
  "''Even'' \<noteq> ''even'' \<and> ''Even'' \<noteq> ''pre_prob'' \<and>
   how_to_prob (init ''Even'' None 6 [4, 4, 4, 4, 4]) = ''Even'' \<and>
   get_prob (init ''Even'' None 6 [4, 4, 4, 4, 4])
     = Inl (ValueError ''prob method not supported'') \<and>
   map_option fst
     (sample_search \<lparr>self = init ''Even'' None 6 [4, 4, 4, 4, 4], np_random = (\<lambda>i. i),
                     np_memory = 8\<rparr>)
     = Some (Inl (ValueError ''prob method not supported''))"
proof -
  have h1: "''Even'' \<noteq> ''even''" by simp
  have h2: "''Even'' \<noteq> ''pre_prob''" by simp
  note r = init_accepts_any_policy [OF h1 h2, of None 6 "[4, 4, 4, 4, 4]" "\<lambda>i. i" 8]
  from r have "init ''Even'' None 6 [4, 4, 4, 4, 4] =
      \<lparr>how_to_prob = ''Even'', pre_prob = None, CHOICE_NUM = 6, sta_num = [4, 4, 4, 4, 4]\<rparr>"
    by blast
  then have a: "how_to_prob (init ''Even'' None 6 [4, 4, 4, 4, 4]) = ''Even''" by simp
  from r have b: "get_prob (init ''Even'' None 6 [4, 4, 4, 4, 4])
      = Inl (ValueError ''prob method not supported'')" by blast
  from r have "sample_search
        \<lparr>self = init ''Even'' None 6 [4, 4, 4, 4, 4], np_random = (\<lambda>i. i), np_memory = 8\<rparr>
      = Some (Inl (ValueError ''prob method not supported''),
         \<lparr>self = init ''Even'' None 6 [4, 4, 4, 4, 4], np_random = (\<lambda>i. i), np_memory = 8\<rparr>)"
    by blast
  then have c: "map_option fst (sample_search
        \<lparr>self = init ''Even'' None 6 [4, 4, 4, 4, 4], np_random = (\<lambda>i. i), np_memory = 8\<rparr>)
      = Some (Inl (ValueError ''prob method not supported''))" by simp
  from h1 h2 a b c show ?thesis by blast
qed

text \<open>
  C1: the weights of \<open>pre_prob\<close> do not reach the draw. With two options, one slot
  count of 4 and the raw words 0, 1, 2, 3, the policy \<^verbatim>\<open>'pre_prob'\<close> returns the same
  candidate for the prior \<open>(1, 0)\<close>, under which option 1 has probability 0, and for the
  opposite prior \<open>(0, 1)\<close>, under which option 0 has probability 0; both options occur
  twice among the four slots of either candidate.
\<close>

theorem sample_search_prior_not_applied:
  "map_option fst
     (sample_search \<lparr>self = init ''pre_prob'' (Some [1, 0]) 2 [4], np_random = (\<lambda>i. i),
                     np_memory = 4\<rparr>)
     = Some (Inr [[0], [0, 1, 0, 1], [0]]) \<and>
   map_option fst
     (sample_search \<lparr>self = init ''pre_prob'' (Some [0, 1]) 2 [4], np_random = (\<lambda>i. i),
                     np_memory = 4\<rparr>)
     = Some (Inr [[0], [0, 1, 0, 1], [0]])"
  by code_simp

text \<open>
  C2, as far as the code goes: under \<^verbatim>\<open>'pre_prob'\<close> with \<open>pre_prob\<close> absent
  (\<^verbatim>\<open>None\<close>) nothing is raised on account of the prior. \<^verbatim>\<open>get_prob\<close> resolves to
  \<^verbatim>\<open>None\<close>, and on a skeleton with \<open>CHOICE_NUM\<close> from 1 to \<open>2 ^ 63\<close> and slot counts
  that are not negative and that numpy can allocate, with a generator that is productive
  for the bound \<open>CHOICE_NUM - 1\<close>, the call returns the candidate, and leaves the
  generator, that the policy \<^verbatim>\<open>'even'\<close> gives from the same state.
\<close>

theorem sample_search_absent_prior:
  assumes "how_to_prob (self st) = ''pre_prob''" and "pre_prob (self st) = None"
    and "1 \<le> CHOICE_NUM (self st)" and "CHOICE_NUM (self st) \<le> 2 ^ 63"
    and "\<forall>item\<in>set (sta_num (self st)).
           0 \<le> item \<and> item < 2 ^ 60 \<and> item \<le> int (np_memory st)"
    and "productive (nat (CHOICE_NUM (self st) - 1)) (np_random st)"
  shows "get_prob (self st) = Inr None \<and>
    (\<exists>cand g'.
       sample_search st = Some (Inr cand, st\<lparr>np_random := g'\<rparr>) \<and>
       sample_search (st\<lparr>self := (self st)\<lparr>how_to_prob := ''even''\<rparr>\<rparr>) =
         Some (Inr cand, st\<lparr>self := (self st)\<lparr>how_to_prob := ''even''\<rparr>, np_random := g'\<rparr>))"
proof -
  have prob: "get_prob (self st) = Inr None"
    using assms(1,2) by (simp add: get_prob_def)
  from comprehension_replace_returns [OF assms(3,4,5,6)] obtain stages g' where
    comp: "comprehension (\<lambda>item. choice (CHOICE_NUM (self st)) item True (np_memory st))
             (sta_num (self st)) (np_random st) = Some (Inr stages, g')"
    by blast
  have "sample_search st = Some (Inr ([0] # stages @ [[0]]), st\<lparr>np_random := g'\<rparr>)"
    using prob comp by (simp add: sample_search_alt)
  moreover have "sample_search (st\<lparr>self := (self st)\<lparr>how_to_prob := ''even''\<rparr>\<rparr>) =
      Some (Inr ([0] # stages @ [[0]]),
            st\<lparr>self := (self st)\<lparr>how_to_prob := ''even''\<rparr>, np_random := g'\<rparr>)"
    using comp by (simp add: sample_search_alt get_prob_def)
  ultimately show ?thesis using prob by blast
qed

theorem sample_search_absent_prior_witness:
  "how_to_prob (init ''pre_prob'' None 2 [2]) = ''pre_prob'' \<and>
   pre_prob (init ''pre_prob'' None 2 [2]) = None \<and>
   1 \<le> CHOICE_NUM (init ''pre_prob'' None 2 [2]) \<and>
   CHOICE_NUM (init ''pre_prob'' None 2 [2]) \<le> 2 ^ 63 \<and>
   list_all (\<lambda>item. 0 \<le> item \<and> item < 2 ^ 60 \<and> item \<le> 8)
     (sta_num (init ''pre_prob'' None 2 [2])) \<and>
   productive 1 (\<lambda>i. i) \<and>
   get_prob (init ''pre_prob'' None 2 [2]) = Inr None \<and>
   (\<exists>cand.
      map_option fst
        (sample_search \<lparr>self = init ''pre_prob'' None 2 [2], np_random = (\<lambda>i. i),
                        np_memory = 8\<rparr>) = Some (Inr cand) \<and>
      map_option fst
        (sample_search \<lparr>self = init ''even'' None 2 [2], np_random = (\<lambda>i. i),
                        np_memory = 8\<rparr>) = Some (Inr cand))"
proof -
  let ?st = "\<lparr>self = init ''pre_prob'' None 2 [2], np_random = (\<lambda>i. i), np_memory = 8\<rparr>"
  have h1: "how_to_prob (self ?st) = ''pre_prob''" by (simp add: init_def)
  have h2: "pre_prob (self ?st) = None" by (simp add: init_def)
  have h3: "1 \<le> CHOICE_NUM (self ?st)" by (simp add: init_def)
  have h4: "CHOICE_NUM (self ?st) \<le> 2 ^ 63" by (simp add: init_def)
  have h5: "\<forall>item\<in>set (sta_num (self ?st)).
              0 \<le> item \<and> item < 2 ^ 60 \<and> item \<le> int (np_memory ?st)"
    by (simp add: init_def)
  have p: "productive 1 (\<lambda>i. i)"
    by (rule productive_all_kept) (simp only: gen_mask_1 order_refl)
  then have h6: "productive (nat (CHOICE_NUM (self ?st) - 1)) (np_random ?st)"
    by (simp add: init_def)
  have same: "(init ''pre_prob'' None 2 [2])\<lparr>how_to_prob := ''even''\<rparr>
                = init ''even'' None 2 [2]"
    by (simp add: init_def)
  note r = sample_search_absent_prior [OF h1 h2 h3 h4 h5 h6]
  from r have a: "get_prob (self ?st) = Inr None" by blast
  from r obtain cand g' where
    "sample_search ?st = Some (Inr cand, ?st\<lparr>np_random := g'\<rparr>)"
    "sample_search (?st\<lparr>self := (self ?st)\<lparr>how_to_prob := ''even''\<rparr>\<rparr>) =
       Some (Inr cand, ?st\<lparr>self := (self ?st)\<lparr>how_to_prob := ''even''\<rparr>, np_random := g'\<rparr>)"
    by blast
  then have "map_option fst (sample_search ?st) = Some (Inr cand) \<and>
      map_option fst (sample_search
        \<lparr>self = init ''even'' None 2 [2], np_random = (\<lambda>i. i), np_memory = 8\<rparr>)
        = Some (Inr cand)"
    by (simp add: same)
  then have "\<exists>cand. map_option fst (sample_search ?st) = Some (Inr cand) \<and>
      map_option fst (sample_search
        \<lparr>self = init ''even'' None 2 [2], np_random = (\<lambda>i. i), np_memory = 8\<rparr>)
        = Some (Inr cand)"
    by blast
  with a p show ?thesis by (simp add: init_def)
qed

theorem sample_search_absent_prior_counterexample:
  "how_to_prob (init ''pre_prob'' None 4 [2, 2]) = ''pre_prob'' \<and>
   pre_prob (init ''pre_prob'' None 4 [2, 2]) = None \<and>
   map_option fst
     (sample_search
        \<lparr>self = init ''pre_prob'' None 4 [2, 2], np_random = (\<lambda>i. 3 * i + 1),
           np_memory = 4\<rparr>)
     = Some (Inr [[0], [1, 0], [3, 2], [0]])"
  by code_simp

section \<open>Specified properties of the evaluation driver\<close>

text \<open>
  C10, as far as the code goes: in a run without \<^verbatim>\<open>--tiny\<close> that reaches the data
  stage with a \<^verbatim>\<open>--data\<close> path, if nothing exists at the \<^verbatim>\<open>train\<close> path or the
  \<^verbatim>\<open>val\<close> path is not a directory, the stage logs one error and leaves the process
  with exit code 1; no call into the data-loading library comes before the exit.
\<close>

theorem load_data_missing_directory:
  assumes "\<not> tiny a" and "data a = Some d"
    and "fs (os_path_join d ''train'') = Absent \<or> fs (os_path_join d ''val'') \<noteq> Dir"
  shows "\<exists>msg. load_data a fs = ([LogError msg], Exit 1)"
  using assms
  by (auto simp: load_data_def os_path_exists_def os_path_isdir_def Let_def)

theorem load_data_missing_directory_witness:
  "\<not> tiny \<lparr>tiny = False, data = Some ''/data''\<rparr> \<and>
   data \<lparr>tiny = False, data = Some ''/data''\<rparr> = Some ''/data'' \<and>
   (\<lambda>p. if p = ''/data/train'' then Dir else Absent) (os_path_join ''/data'' ''val'') \<noteq> Dir \<and>
   (\<exists>msg. load_data \<lparr>tiny = False, data = Some ''/data''\<rparr>
             (\<lambda>p. if p = ''/data/train'' then Dir else Absent) = ([LogError msg], Exit 1))"
proof -
  let ?a = "\<lparr>tiny = False, data = Some ''/data''\<rparr>"
  let ?fs = "\<lambda>p. if p = ''/data/train'' then Dir else Absent"
  have h1: "\<not> tiny ?a" by simp
  have h2: "data ?a = Some ''/data''" by simp
  have v: "?fs (os_path_join ''/data'' ''val'') \<noteq> Dir" by (simp add: os_path_join_def)
  then have h3: "?fs (os_path_join ''/data'' ''train'') = Absent \<or>
                 ?fs (os_path_join ''/data'' ''val'') \<noteq> Dir" by blast
  from load_data_missing_directory [OF h1 h2 h3] h1 h2 v show ?thesis by blast
qed

theorem load_data_tiny_counterexample:
  "tiny \<lparr>tiny = True, data = Some ''/data''\<rparr> \<and>
   load_data \<lparr>tiny = True, data = Some ''/data''\<rparr> (\<lambda>p. Absent)
     = ([GetNewImagenet (Some ''/data'')], Proceed)"
  by (simp add: load_data_def)

end
